theory Spec2Isabelle
  imports Complex_Main
begin

section \<open>Qubit operators\<close>

text \<open>
  The single-qubit actions. A term of a qubit operator carries only \<open>X\<close>, \<open>Y\<close> and
  \<open>Z\<close>; \<open>I\<close> is the first entry of \<open>pauli_reverse_lookup\<close> in \<open>get_pool\<close>.
\<close>

datatype pauli = I | Z | X | Y

datatype error = IndexError | KeyError | ValueError | TypeError | AttributeError | RuntimeError

text \<open>
  Modelled from the spec: the class \<open>QubitOperator\<close> is not among the sources. A
  Hamiltonian is "a mapping from Pauli-string term (sequence of (qubit-index,
  single-qubit-Pauli) pairs) to complex coefficient". A term is a tuple of (qubit index,
  action) pairs; a qubit operator is an ordered dictionary from terms to complex
  coefficients, kept as an association list in insertion order. \<open>terms\<close> lists the keys
  as the \<open>for\<close> loop of \<open>get_pool\<close> visits them.
\<close>

type_synonym pauli_term = "(nat \<times> pauli) list"

type_synonym qubit_operator = "(pauli_term \<times> complex) list"

definition terms :: "qubit_operator \<Rightarrow> pauli_term list" where
  "terms qubit_op = map fst qubit_op"

text \<open>
  \<open>QubitOperator(operator_tuple, 1.0j)\<close>: the operator with the one term
  \<open>operator_tuple\<close> and the coefficient given. \<open>get_pool\<close> calls the constructor with
  a tuple whose indices are strictly increasing, which is stored as given.
\<close>

definition QubitOperator :: "pauli_term \<Rightarrow> complex \<Rightarrow> qubit_operator" where
  "QubitOperator operator_tuple coefficient = [(operator_tuple, coefficient)]"

section \<open>The Hamiltonian-inspired operator pool: \<open>get_pool\<close>\<close>

text \<open>\<open>pauli_lookup = {'Z':1, 'X':2, 'Y':3}\<close>; a missing key raises \<open>KeyError\<close>.\<close>

definition pauli_lookup :: "pauli \<rightharpoonup> int" where
  "pauli_lookup = [Z \<mapsto> 1, X \<mapsto> 2, Y \<mapsto> 3]"

text \<open>\<open>pauli_reverse_lookup = ['I', 'Z', 'X', 'Y']\<close>\<close>

definition pauli_reverse_lookup :: "pauli list" where
  "pauli_reverse_lookup = [I, Z, X, Y]"

text \<open>
  The inner loop \<open>for index, action in term\<close>: every factor whose code exceeds 1 (an
  \<open>X\<close> or a \<open>Y\<close>) is written into \<open>pauli_string\<close> at its qubit index. Writing past
  the end of the array raises \<open>IndexError\<close>.
\<close>

fun identify_factors :: "int list \<Rightarrow> pauli_term \<Rightarrow> error + int list" where
  "identify_factors pauli_string [] = Inr pauli_string"
| "identify_factors pauli_string ((index, action) # rest) =
     (case pauli_lookup action of
        None \<Rightarrow> Inl KeyError
      | Some code \<Rightarrow>
          if code > 1 then
            (if index < length pauli_string
             then identify_factors (pauli_string[index := code]) rest
             else Inl IndexError)
          else identify_factors pauli_string rest)"

text \<open>\<open>np.where(pauli_string > 1)[0]\<close>: the positions holding an \<open>X\<close> or a \<open>Y\<close>, ascending.\<close>

definition where_gt1 :: "int list \<Rightarrow> nat list" where
  "where_gt1 pauli_string = filter (\<lambda>i. pauli_string ! i > 1) [0..<length pauli_string]"

text \<open>
  The list comprehension building \<open>operator_tuple\<close> from \<open>enumerate(pauli_string)\<close>:
  entries with a positive code are kept and mapped through \<open>pauli_reverse_lookup\<close>,
  whose four entries are the only ones that can be read.
\<close>

fun operator_tuple_of :: "(nat \<times> int) list \<Rightarrow> error + pauli_term" where
  "operator_tuple_of [] = Inr []"
| "operator_tuple_of ((index, p) # rest) =
     (if p > 0 then
        (if nat p < length pauli_reverse_lookup then
           (case operator_tuple_of rest of
              Inl e \<Rightarrow> Inl e
            | Inr tl_tuple \<Rightarrow> Inr ((index, pauli_reverse_lookup ! nat p) # tl_tuple))
         else Inl IndexError)
      else operator_tuple_of rest)"

text \<open>
  The variables the outer loop reads and writes: the Hamiltonian object it was handed and
  the three accumulators \<open>indices\<close>, \<open>pool_generators\<close> and \<open>pool_tuples\<close>.
\<close>

record pool_state =
  qubit_hamiltonian :: qubit_operator
  indices :: "bool list list"
  pool_generators :: "qubit_operator list"
  pool_tuples :: "pauli_term list"

text \<open>One pass of the body of \<open>for term in qubit_hamiltonian.terms\<close>.\<close>

definition get_pool_body :: "nat \<Rightarrow> pool_state \<Rightarrow> pauli_term \<Rightarrow> error + pool_state" where
  "get_pool_body n_qubits st trm =
     (case identify_factors (replicate n_qubits 0) trm of
        Inl e \<Rightarrow> Inl e
      | Inr pauli_string \<Rightarrow>
          let action_mask = map (\<lambda>p. p > 1) pauli_string in
          if action_mask \<in> set (indices st) then Inr st
          else if sum_list pauli_string mod 2 = 0 \<and> sum_list pauli_string > 0 then
            (case where_gt1 pauli_string of
               [] \<Rightarrow> Inl IndexError
             | flip_index # _ \<Rightarrow>
                 let flipped = pauli_string[flip_index :=
                       pauli_string ! flip_index + (- 1) ^ nat (pauli_string ! flip_index mod 2)]
                 in (case operator_tuple_of (enumerate 0 flipped) of
                       Inl e \<Rightarrow> Inl e
                     | Inr operator_tuple \<Rightarrow>
                         Inr (st\<lparr>indices := indices st @ [action_mask],
                                 pool_generators :=
                                   pool_generators st @ [QubitOperator operator_tuple \<i>],
                                 pool_tuples := pool_tuples st @ [operator_tuple]\<rparr>)))
          else Inr st)"

text \<open>The outer loop; an exception raised in the body leaves the loop.\<close>

fun get_pool_loop :: "nat \<Rightarrow> pool_state \<Rightarrow> pauli_term list \<Rightarrow> error + pool_state" where
  "get_pool_loop n_qubits st [] = Inr st"
| "get_pool_loop n_qubits st (trm # rest) =
     (case get_pool_body n_qubits st trm of
        Inl e \<Rightarrow> Inl e
      | Inr st' \<Rightarrow> get_pool_loop n_qubits st' rest)"

text \<open>
  A call of \<open>get_pool\<close>: the three lists start empty on every call, the loop runs over the
  terms of the Hamiltonian, and \<open>pool_generators\<close> is returned. \<open>get_pool_run\<close> keeps the
  whole final state, so that what the call left in the Hamiltonian object can be read off.
\<close>

definition get_pool_run :: "qubit_operator \<Rightarrow> nat \<Rightarrow> error + pool_state" where
  "get_pool_run hamiltonian n_qubits =
     (let st = \<lparr>qubit_hamiltonian = hamiltonian, indices = [],
                pool_generators = [], pool_tuples = []\<rparr>
      in get_pool_loop n_qubits st (terms (qubit_hamiltonian st)))"

definition get_pool :: "qubit_operator \<Rightarrow> nat \<Rightarrow> error + qubit_operator list" where
  "get_pool hamiltonian n_qubits =
     (case get_pool_run hamiltonian n_qubits of
        Inl e \<Rightarrow> Inl e
      | Inr st \<Rightarrow> Inr (pool_generators st))"

section \<open>What the specification says about the pool\<close>

text \<open>
  The notions the claims about \<open>get_pool\<close> are stated with. A term of a qubit operator
  lists its factors by strictly increasing qubit index and has no identity factor.
\<close>

definition is_xy :: "pauli \<Rightarrow> bool" where
  "is_xy a = (a = X \<or> a = Y)"

definition wf_term :: "pauli_term \<Rightarrow> bool" where
  "wf_term trm = (sorted_wrt (<) (map fst trm) \<and> I \<notin> snd ` set trm)"

definition wf_hamiltonian :: "qubit_operator \<Rightarrow> bool" where
  "wf_hamiltonian hamiltonian = list_all wf_term (terms hamiltonian)"

definition y_count :: "pauli_term \<Rightarrow> nat" where
  "y_count trm = length (filter (\<lambda>f. snd f = Y) trm)"

definition xy_factors :: "pauli_term \<Rightarrow> pauli_term" where
  "xy_factors trm = filter (\<lambda>f. is_xy (snd f)) trm"

definition has_xy :: "pauli_term \<Rightarrow> bool" where
  "has_xy trm = (xy_factors trm \<noteq> [])"

text \<open>The qubits a term acts on with \<open>X\<close> or \<open>Y\<close>, and the qubits an operator touches.\<close>

definition xy_support :: "pauli_term \<Rightarrow> nat set" where
  "xy_support trm = fst ` set (xy_factors trm)"

definition op_support :: "qubit_operator \<Rightarrow> nat set" where
  "op_support qubit_op = (\<Union>trm \<in> set (terms qubit_op). fst ` set trm)"

text \<open>
  The generator as the specification words it: the \<open>Z\<close> factors are dropped and the first
  remaining factor is flipped, \<open>X\<close> to \<open>Y\<close> or \<open>Y\<close> to \<open>X\<close>.
\<close>

definition flip :: "pauli \<Rightarrow> pauli" where
  "flip a = (if a = X then Y else if a = Y then X else a)"

definition flip_first_xy :: "pauli_term \<Rightarrow> pauli_term" where
  "flip_first_xy trm =
     (case xy_factors trm of
        [] \<Rightarrow> []
      | (index, a) # rest \<Rightarrow> (index, flip a) # rest)"

definition action_mask_of :: "nat \<Rightarrow> pauli_term \<Rightarrow> bool list" where
  "action_mask_of n_qubits trm = map (\<lambda>i. i \<in> xy_support trm) [0..<n_qubits]"

text \<open>
  The value \<open>sum(pauli_string)\<close> takes on a term: 2 for every \<open>X\<close> and 3 for every
  \<open>Y\<close>.
\<close>

definition xy_weight :: "pauli_term \<Rightarrow> int" where
  "xy_weight trm = sum_list (map (\<lambda>f. case snd f of X \<Rightarrow> 2 | Y \<Rightarrow> 3 | _ \<Rightarrow> 0) trm)"

text \<open>
  The loop body in the words of the specification: a term whose action mask is new, whose
  number of \<open>Y\<close> factors is even and which has an \<open>X\<close> or \<open>Y\<close> factor adds its mask
  and its generator; any other term changes nothing. \<open>get_pool_body\<close> is compared with it
  below.
\<close>

definition pool_step :: "nat \<Rightarrow> pool_state \<Rightarrow> pauli_term \<Rightarrow> pool_state" where
  "pool_step n_qubits st trm =
     (if action_mask_of n_qubits trm \<in> set (indices st) \<or> odd (y_count trm) \<or> \<not> has_xy trm
      then st
      else st\<lparr>indices := indices st @ [action_mask_of n_qubits trm],
              pool_generators := pool_generators st @ [QubitOperator (flip_first_xy trm) \<i>],
              pool_tuples := pool_tuples st @ [flip_first_xy trm]\<rparr>)"

definition init_state :: "qubit_operator \<Rightarrow> pool_state" where
  "init_state hamiltonian =
     \<lparr>qubit_hamiltonian = hamiltonian, indices = [], pool_generators = [], pool_tuples = []\<rparr>"

text \<open>The action mask of the qubits an operator touches, among \<open>n_qubits\<close> qubits.\<close>

definition action_mask_of_op :: "nat \<Rightarrow> qubit_operator \<Rightarrow> bool list" where
  "action_mask_of_op n_qubits g = map (\<lambda>i. i \<in> op_support g) [0..<n_qubits]"

section \<open>\<open>get_pool\<close> on a store of objects\<close>

text \<open>
  The mutable objects a call of \<open>get_pool\<close> meets, at addresses of a store: a
  \<open>QubitOperator\<close> (its \<open>terms\<close> dictionary), a numpy array of integers and a Python
  list. Tuples are immutable and are values: a list holds action masks (tuples of
  booleans), operator tuples, or references to objects. An address is an index of the
  store; a new object is put at the end.
\<close>

datatype py_item = MaskTuple "bool list" | TermTuple pauli_term | Ref nat

datatype py_object = OperatorObj qubit_operator | ArrayObj "int list" | ListObj "py_item list"

type_synonym store = "py_object list"

definition deref :: "store \<Rightarrow> nat \<Rightarrow> py_object option" where
  "deref s a = (if a < length s then Some (s ! a) else None)"

text \<open>
  A statement takes the store and leaves a store together with its value or the exception
  it raised; after an exception the rest of the block is skipped.
\<close>

definition h_return :: "'a \<Rightarrow> store \<Rightarrow> (error + 'a) \<times> store" where
  "h_return x s = (Inr x, s)"

definition h_raise :: "error \<Rightarrow> store \<Rightarrow> (error + 'a) \<times> store" where
  "h_raise e s = (Inl e, s)"

definition h_bind ::
  "(store \<Rightarrow> (error + 'a) \<times> store) \<Rightarrow> ('a \<Rightarrow> store \<Rightarrow> (error + 'b) \<times> store)
     \<Rightarrow> store \<Rightarrow> (error + 'b) \<times> store" where
  "h_bind m f s = (case m s of (Inl e, s') \<Rightarrow> (Inl e, s') | (Inr x, s') \<Rightarrow> f x s')"

text \<open>Creating an object: \<open>list()\<close>, \<open>np.zeros(...)\<close>, \<open>QubitOperator(...)\<close>.\<close>

definition alloc :: "py_object \<Rightarrow> store \<Rightarrow> (error + nat) \<times> store" where
  "alloc obj s = (Inr (length s), s @ [obj])"

text \<open>
  \<open>qubit_hamiltonian.terms\<close>: the keys of the dictionary of the operator at the address;
  an object of another kind has no such attribute.
\<close>

definition dict_terms :: "nat \<Rightarrow> store \<Rightarrow> (error + pauli_term list) \<times> store" where
  "dict_terms a s =
     (case deref s a of
        Some (OperatorObj op) \<Rightarrow> (Inr (terms op), s)
      | _ \<Rightarrow> (Inl AttributeError, s))"

text \<open>Reading an array, and \<open>array[i] = v\<close>, which writes into the object at the address.\<close>

definition array_get :: "nat \<Rightarrow> store \<Rightarrow> (error + int list) \<times> store" where
  "array_get a s =
     (case deref s a of
        Some (ArrayObj xs) \<Rightarrow> (Inr xs, s)
      | _ \<Rightarrow> (Inl TypeError, s))"

definition array_setitem :: "nat \<Rightarrow> nat \<Rightarrow> int \<Rightarrow> store \<Rightarrow> (error + unit) \<times> store" where
  "array_setitem a i v s =
     (case deref s a of
        Some (ArrayObj xs) \<Rightarrow>
          if i < length xs then (Inr (), s[a := ArrayObj (xs[i := v])])
          else (Inl IndexError, s)
      | _ \<Rightarrow> (Inl TypeError, s))"

text \<open>Reading a list, and \<open>list.append(v)\<close>, which writes into the object at the address.\<close>

definition list_get :: "nat \<Rightarrow> store \<Rightarrow> (error + py_item list) \<times> store" where
  "list_get a s =
     (case deref s a of
        Some (ListObj vs) \<Rightarrow> (Inr vs, s)
      | _ \<Rightarrow> (Inl TypeError, s))"

definition list_append :: "nat \<Rightarrow> py_item \<Rightarrow> store \<Rightarrow> (error + unit) \<times> store" where
  "list_append a v s =
     (case deref s a of
        Some (ListObj vs) \<Rightarrow> (Inr (), s[a := ListObj (vs @ [v])])
      | _ \<Rightarrow> (Inl AttributeError, s))"

text \<open>
  The local variables of a call that are bound to objects, each with the address of its
  object: the argument \<open>qubit_hamiltonian\<close> and the three lists.
\<close>

record pool_frame =
  v_qubit_hamiltonian :: nat
  v_indices :: nat
  v_pool_generators :: nat
  v_pool_tuples :: nat

text \<open>
  The inner loop \<open>for index, action in term\<close>, writing into the array \<open>pauli_string\<close>
  is bound to.
\<close>

fun store_identify_factors :: "nat \<Rightarrow> pauli_term \<Rightarrow> store \<Rightarrow> (error + unit) \<times> store" where
  "store_identify_factors pauli_string [] s = (Inr (), s)"
| "store_identify_factors pauli_string ((index, action) # rest) s =
     (case pauli_lookup action of
        None \<Rightarrow> (Inl KeyError, s)
      | Some code \<Rightarrow>
          if code > 1 then
            (case array_setitem pauli_string index code s of
               (Inl e, s') \<Rightarrow> (Inl e, s')
             | (Inr u, s') \<Rightarrow> store_identify_factors pauli_string rest s')
          else store_identify_factors pauli_string rest s)"

text \<open>
  One pass of the body of \<open>for term in qubit_hamiltonian.terms\<close>, statement by
  statement: \<open>pauli_string\<close> is a new array, \<open>action_mask\<close> a tuple made from it before
  the flip is written into it, and the generator a new operator whose address is appended
  to \<open>pool_generators\<close>.
\<close>

definition store_get_pool_body ::
  "nat \<Rightarrow> pool_frame \<Rightarrow> pauli_term \<Rightarrow> store \<Rightarrow> (error + unit) \<times> store" where
  "store_get_pool_body n_qubits fr trm =
     h_bind (alloc (ArrayObj (replicate n_qubits 0))) (\<lambda>pauli_string.
     h_bind (store_identify_factors pauli_string trm) (\<lambda>u.
     h_bind (array_get pauli_string) (\<lambda>ps.
     h_bind (list_get (v_indices fr)) (\<lambda>used.
       if MaskTuple (map (\<lambda>p. p > 1) ps) \<in> set used then h_return ()
       else if sum_list ps mod 2 = 0 \<and> sum_list ps > 0 then
         (case where_gt1 ps of
            [] \<Rightarrow> h_raise IndexError
          | flip_index # others \<Rightarrow>
              h_bind (array_setitem pauli_string flip_index
                        (ps ! flip_index + (- 1) ^ nat (ps ! flip_index mod 2))) (\<lambda>u.
              h_bind (list_append (v_indices fr) (MaskTuple (map (\<lambda>p. p > 1) ps))) (\<lambda>u.
              h_bind (array_get pauli_string) (\<lambda>flipped.
              h_bind (\<lambda>s. (operator_tuple_of (enumerate 0 flipped), s)) (\<lambda>operator_tuple.
              h_bind (alloc (OperatorObj (QubitOperator operator_tuple \<i>))) (\<lambda>generator.
              h_bind (list_append (v_pool_generators fr) (Ref generator)) (\<lambda>u.
              list_append (v_pool_tuples fr) (TermTuple operator_tuple))))))))
       else h_return ()))))"

text \<open>
  The outer loop, as the iterator of a dictionary runs: before every pass the dictionary
  of the operator is read again, a dictionary whose size has changed since the loop
  started raises \<open>RuntimeError\<close>, and the pass takes the key at the next position.
  \<open>len\<close> is the size at the start and \<open>remaining\<close> the number of keys not yet visited.
\<close>

fun store_get_pool_loop ::
  "nat \<Rightarrow> pool_frame \<Rightarrow> nat \<Rightarrow> nat \<Rightarrow> store \<Rightarrow> (error + unit) \<times> store" where
  "store_get_pool_loop n_qubits fr len 0 s = (Inr (), s)"
| "store_get_pool_loop n_qubits fr len (Suc remaining) s =
     (case dict_terms (v_qubit_hamiltonian fr) s of
        (Inl e, s') \<Rightarrow> (Inl e, s')
      | (Inr ts, s') \<Rightarrow>
          if length ts \<noteq> len then (Inl RuntimeError, s')
          else
            (case store_get_pool_body n_qubits fr (ts ! (len - Suc remaining)) s' of
               (Inl e, s'') \<Rightarrow> (Inl e, s'')
             | (Inr u, s'') \<Rightarrow> store_get_pool_loop n_qubits fr len remaining s''))"

text \<open>
  The call \<open>get_pool(qubit_hamiltonian, n_qubits)\<close> with the argument given by its
  address: the three lists are created, the loop runs, and the address of
  \<open>pool_generators\<close> is returned.
\<close>

definition store_get_pool :: "nat \<Rightarrow> nat \<Rightarrow> store \<Rightarrow> (error + nat) \<times> store" where
  "store_get_pool qubit_hamiltonian_ref n_qubits =
     h_bind (alloc (ListObj [])) (\<lambda>pool_generators_ref.
     h_bind (alloc (ListObj [])) (\<lambda>pool_tuples_ref.
     h_bind (alloc (ListObj [])) (\<lambda>indices_ref.
     h_bind (dict_terms qubit_hamiltonian_ref) (\<lambda>ts.
     h_bind (store_get_pool_loop n_qubits
               \<lparr>v_qubit_hamiltonian = qubit_hamiltonian_ref, v_indices = indices_ref,
                v_pool_generators = pool_generators_ref, v_pool_tuples = pool_tuples_ref\<rparr>
               (length ts) (length ts)) (\<lambda>u.
     h_return pool_generators_ref)))))"

text \<open>
  What a caller holds after the call: the exception, or the list at the returned address
  read as the list of the operators its entries refer to. It is \<open>None\<close> when the address
  is not that of a list of references to operators.
\<close>

definition operator_at :: "store \<Rightarrow> py_item \<Rightarrow> qubit_operator option" where
  "operator_at s v =
     (case v of
        Ref g \<Rightarrow> (case deref s g of Some (OperatorObj op) \<Rightarrow> Some op | _ \<Rightarrow> None)
      | _ \<Rightarrow> None)"

definition returned_pool :: "(error + nat) \<times> store \<Rightarrow> (error + qubit_operator list) option" where
  "returned_pool out =
     (case out of
        (Inl e, s) \<Rightarrow> Some (Inl e)
      | (Inr a, s) \<Rightarrow>
          (case deref s a of
             Some (ListObj vs) \<Rightarrow> map_option Inr (those (map (operator_at s) vs))
           | _ \<Rightarrow> None))"

text \<open>
  The relation between the store during the loop and the state of the loop of
  \<open>get_pool_loop\<close>: the objects that were there at the call are as they were, the three
  lists are new objects that hold the three accumulators, and every entry of
  \<open>pool_generators\<close> refers to a new operator object.
\<close>

definition pool_rel :: "store \<Rightarrow> pool_frame \<Rightarrow> store \<Rightarrow> pool_state \<Rightarrow> bool" where
  "pool_rel s0 fr s st =
     (take (length s0) s = s0 \<and> length s0 \<le> length s \<and>
      length s0 \<le> v_indices fr \<and> length s0 \<le> v_pool_generators fr \<and>
      length s0 \<le> v_pool_tuples fr \<and>
      v_indices fr < length s \<and> v_pool_generators fr < length s \<and> v_pool_tuples fr < length s \<and>
      v_indices fr \<noteq> v_pool_generators fr \<and> v_indices fr \<noteq> v_pool_tuples fr \<and>
      v_pool_generators fr \<noteq> v_pool_tuples fr \<and>
      s ! v_indices fr = ListObj (map MaskTuple (indices st)) \<and>
      s ! v_pool_tuples fr = ListObj (map TermTuple (pool_tuples st)) \<and>
      (\<exists>gs. s ! v_pool_generators fr = ListObj (map Ref gs) \<and>
            list_all2 (\<lambda>g op. g < length s \<and> length s0 \<le> g \<and> g \<noteq> v_indices fr \<and>
                              g \<noteq> v_pool_generators fr \<and> g \<noteq> v_pool_tuples fr \<and>
                              s ! g = OperatorObj op)
              gs (pool_generators st)))"

section \<open>The hardware-efficient ansatz: gates and circuits\<close>

text \<open>
  \<open>Gate(name, target, control=None, parameter="", is_variational=False)\<close>. A gate built
  without a parameter has none.
\<close>

record gate =
  name :: string
  target :: nat
  control :: "nat option"
  parameter :: "real option"
  is_variational :: bool

definition Gate :: "string \<Rightarrow> nat \<Rightarrow> nat option \<Rightarrow> real option \<Rightarrow> bool \<Rightarrow> gate" where
  "Gate nm tgt ctrl par var =
     \<lparr>name = nm, target = tgt, control = ctrl, parameter = par, is_variational = var\<rparr>"

text \<open>
  Modelled from the spec: the \<open>Circuit\<close> class of the \<open>linq\<close> package is not among the
  sources; the notebook says of it that it "keeps a record of the variational gates in the
  circuit". A circuit is the list of its gates in the order they were added;
  \<open>_variational_gates\<close> refers, in the same order, to the gates added with
  \<open>is_variational=True\<close>, and a reference is kept as the position of the gate in
  \<open>gates\<close>, so that writing through it changes the circuit. \<open>size\<close> is the number of
  gates, and \<open>+\<close> builds the circuit holding the gates of both operands.
\<close>

record circuit =
  gates :: "gate list"
  variational_gates :: "nat list"

definition Circuit :: circuit where
  "Circuit = \<lparr>gates = [], variational_gates = []\<rparr>"

definition add_gate :: "circuit \<Rightarrow> gate \<Rightarrow> circuit" where
  "add_gate c g =
     c\<lparr>gates := gates c @ [g],
       variational_gates :=
         (if is_variational g then variational_gates c @ [length (gates c)]
          else variational_gates c)\<rparr>"

definition circuit_size :: "circuit \<Rightarrow> nat" where
  "circuit_size c = length (gates c)"

definition circuit_add :: "circuit \<Rightarrow> circuit \<Rightarrow> circuit" where
  "circuit_add c1 c2 = foldl add_gate c1 (gates c2)"

text \<open>\<open>EulerCircuit\<close>: an Euler Z-X-Z rotation on each qubit, every gate variational.\<close>

definition EulerCircuit :: "nat \<Rightarrow> circuit" where
  "EulerCircuit n_qubits =
     foldl (\<lambda>c tgt.
         add_gate
           (add_gate
              (add_gate c (Gate ''RZ'' tgt None (Some 0) True))
              (Gate ''RX'' tgt None (Some 0) True))
           (Gate ''RZ'' tgt None (Some 0) True))
       Circuit [0..<n_qubits]"

text \<open>
  \<open>EntanglerCircuit\<close>: two columns of staggered CNOT gates. \<open>range(n_qubits//2 - 1)\<close> is
  empty when \<open>n_qubits < 2\<close>, as is the range of the truncated difference.
\<close>

definition EntanglerCircuit :: "nat \<Rightarrow> circuit" where
  "EntanglerCircuit n_qubits =
     foldl (\<lambda>c ii. add_gate c (Gate ''CNOT'' (2 * (ii + 1)) (Some (2 * ii + 1)) None False))
       (foldl (\<lambda>c ii. add_gate c (Gate ''CNOT'' (2 * ii + 1) (Some (2 * ii)) None False))
          Circuit [0..<n_qubits div 2])
       [0..<n_qubits div 2 - 1]"

text \<open>\<open>HEACircuit\<close>: Euler rotations, then \<open>n_layers\<close> times an entangler and Euler rotations.\<close>

definition HEACircuit :: "nat \<Rightarrow> nat \<Rightarrow> circuit" where
  "HEACircuit n_qubits n_layers =
     foldl (\<lambda>c ii. circuit_add (circuit_add c (EntanglerCircuit n_qubits)) (EulerCircuit n_qubits))
       (EulerCircuit n_qubits) [0..<n_layers]"

section \<open>The class \<open>HEA\<close>\<close>

text \<open>
  What \<open>set_var_params\<close> can be handed and what it stores: \<open>None\<close>, a string, a
  number, a list of any values, or a numpy array of numbers. \<open>np.random.random\<close> and
  \<open>np.ones\<close> return arrays.
\<close>

datatype py_value =
  PyNone | PyStr string | PyFloat real | PyList "py_value list" | NdArray "real list"

text \<open>\<open>len(var_params)\<close>; \<open>None\<close> and a number have no length.\<close>

definition py_len :: "py_value \<Rightarrow> error + nat" where
  "py_len v =
     (case v of
        PyNone \<Rightarrow> Inl TypeError
      | PyStr s \<Rightarrow> Inr (length s)
      | PyFloat x \<Rightarrow> Inl TypeError
      | PyList vs \<Rightarrow> Inr (length vs)
      | NdArray xs \<Rightarrow> Inr (length xs))"

text \<open>
  The truth value of \<open>var_params == "ones"\<close> as the \<open>elif\<close> reads it. A string equals
  a string when they are the same; a number or a list never equals a string. For an
  array the answer is numpy's, and it depends on the version, so it is a parameter
  \<open>array_eq\<close>. Two behaviours are on record. The run recorded in the notebook warns
  "elementwise comparison failed; returning scalar instead, but in the future will perform
  elementwise comparison": there the comparison is the scalar \<open>False\<close>
  (\<open>numpy_scalar\<close>). From numpy 1.25 on the comparison is elementwise, no element
  equals the string, and asking for the truth value of an array of more than one element
  raises \<open>ValueError\<close> (\<open>numpy_elementwise\<close>; the empty array also raises from numpy 2.2
  on).
\<close>

definition numpy_scalar :: "real list \<Rightarrow> string \<Rightarrow> error + bool" where
  "numpy_scalar xs s = Inr False"


definition py_eq_str ::
  "(real list \<Rightarrow> string \<Rightarrow> error + bool) \<Rightarrow> py_value \<Rightarrow> string \<Rightarrow> error + bool" where
  "py_eq_str array_eq v s =
     (case v of
        PyStr t \<Rightarrow> Inr (t = s)
      | NdArray xs \<Rightarrow> array_eq xs s
      | _ \<Rightarrow> Inr False)"


record hea =
  n_spinorbitals :: nat
  n_qubits :: nat
  n_electrons :: nat
  n_layers :: nat
  mapping :: string
  n_var_params :: nat
  var_params :: py_value
  circuit :: "circuit option"

text \<open>
  \<open>HEA.__init__\<close>. The library function \<open>get_qubit_number\<close> is a parameter.
\<close>

definition HEA_init :: "(string \<Rightarrow> nat \<Rightarrow> nat) \<Rightarrow> nat \<Rightarrow> nat \<Rightarrow> nat \<Rightarrow> string \<Rightarrow> hea" where
  "HEA_init get_qubit_number n_so n_el n_lay mapp =
     (let nq = get_qubit_number mapp n_so
      in \<lparr>n_spinorbitals = n_so, n_qubits = nq, n_electrons = n_el, n_layers = n_lay,
           mapping = mapp, n_var_params = nq * 3 * (n_lay + 1),
           var_params = PyNone, circuit = None\<rparr>)"

text \<open>
  \<open>HEA.set_var_params\<close>. A method returns its result, or the exception it raised, together
  with the object as it left it. \<open>np.random.random(n)\<close> is the array of the first \<open>n\<close>
  draws of a source \<open>rng\<close> of numbers, \<open>np.ones(n)\<close> is the array of \<open>n\<close> ones.
\<close>

definition set_var_params ::
  "(real list \<Rightarrow> string \<Rightarrow> error + bool) \<Rightarrow> (nat \<Rightarrow> real) \<Rightarrow> hea \<Rightarrow> py_value
     \<Rightarrow> (error + py_value) \<times> hea" where
  "set_var_params array_eq rng self vp =
     (if vp = PyNone then
        (let v = NdArray (map rng [0..<n_var_params self])
         in (Inr v, self\<lparr>var_params := v\<rparr>))
      else
        (case py_eq_str array_eq vp ''ones'' of
           Inl e \<Rightarrow> (Inl e, self)
         | Inr True \<Rightarrow>
             (let v = NdArray (replicate (n_var_params self) 1)
              in (Inr v, self\<lparr>var_params := v\<rparr>))
         | Inr False \<Rightarrow>
             (case py_len vp of
                Inl e \<Rightarrow> (Inl e, self)
              | Inr k \<Rightarrow>
                  if k \<noteq> n_var_params self then (Inl ValueError, self)
                  else (Inr vp, self\<lparr>var_params := vp\<rparr>))))"

text \<open>
  \<open>HEA.update_var_params\<close>, called with a sequence of numbers. In each pass the right-hand
  side \<open>var_params[param_index]\<close> is read first, then the gate is looked up in
  \<open>self.circuit._variational_gates\<close> and its parameter is written.
\<close>

definition set_parameter :: "circuit \<Rightarrow> nat \<Rightarrow> real \<Rightarrow> circuit" where
  "set_parameter c pos v = c\<lparr>gates := (gates c)[pos := (gates c ! pos)\<lparr>parameter := Some v\<rparr>]\<rparr>"

fun update_var_params_loop :: "hea \<Rightarrow> real list \<Rightarrow> nat list \<Rightarrow> (error + unit) \<times> hea" where
  "update_var_params_loop self vp [] = (Inr (), self)"
| "update_var_params_loop self vp (param_index # rest) =
     (if param_index < length vp then
        (case circuit self of
           None \<Rightarrow> (Inl AttributeError, self)
         | Some c \<Rightarrow>
             if param_index < length (variational_gates c) then
               update_var_params_loop
                 (self\<lparr>circuit :=
                    Some (set_parameter c (variational_gates c ! param_index) (vp ! param_index))\<rparr>)
                 vp rest
             else (Inl IndexError, self))
      else (Inl IndexError, self))"

definition update_var_params :: "hea \<Rightarrow> real list \<Rightarrow> (error + unit) \<times> hea" where
  "update_var_params self vp = update_var_params_loop self vp [0..<n_var_params self]"

text \<open>
  \<open>HEA.prepare_reference_state\<close> and \<open>HEA.build_circuit\<close>. The library function
  \<open>get_reference_circuit\<close> is a parameter.
\<close>

definition prepare_reference_state :: "(nat \<Rightarrow> nat \<Rightarrow> string \<Rightarrow> circuit) \<Rightarrow> hea \<Rightarrow> circuit" where
  "prepare_reference_state get_reference_circuit self =
     get_reference_circuit (n_spinorbitals self) (n_electrons self) (mapping self)"

definition build_circuit ::
  "(real list \<Rightarrow> string \<Rightarrow> error + bool) \<Rightarrow> (nat \<Rightarrow> real)
     \<Rightarrow> (nat \<Rightarrow> nat \<Rightarrow> string \<Rightarrow> circuit) \<Rightarrow> hea \<Rightarrow> py_value
     \<Rightarrow> (error + circuit) \<times> hea" where
  "build_circuit array_eq rng get_reference_circuit self vp =
     (case set_var_params array_eq rng self vp of
        (Inl e, self1) \<Rightarrow> (Inl e, self1)
      | (Inr v, self1) \<Rightarrow>
          let self2 = self1\<lparr>var_params := v\<rparr>;
              reference_state_circuit = prepare_reference_state get_reference_circuit self2;
              hea_circuit = HEACircuit (n_qubits self2) (n_layers self2);
              built = (if circuit_size reference_state_circuit \<noteq> 0
                       then circuit_add reference_state_circuit hea_circuit
                       else hea_circuit)
          in (Inr built, self2\<lparr>circuit := Some built\<rparr>))"

text \<open>
  A circuit is well formed when \<open>_variational_gates\<close> refers to exactly its variational
  gates, in order; every circuit built with \<open>add_gate\<close> is.
\<close>

definition wf_circuit :: "circuit \<Rightarrow> bool" where
  "wf_circuit c =
     (variational_gates c = filter (\<lambda>i. is_variational (gates c ! i)) [0..<length (gates c)])"

text \<open>
  The reference circuit is a circuit of \<open>X\<close> gates: it has no variational gate.
\<close>

definition non_variational :: "circuit \<Rightarrow> bool" where
  "non_variational c = (variational_gates c = [] \<and> list_all (\<lambda>g. \<not> is_variational g) (gates c))"

text \<open>The parameters of the variational gates, in the order of \<open>_variational_gates\<close>.\<close>

definition variational_parameters :: "circuit \<Rightarrow> real option list" where
  "variational_parameters c = map (\<lambda>pos. parameter (gates c ! pos)) (variational_gates c)"

text \<open>One pass of the loop of \<open>update_var_params\<close>, as a function of the circuit.\<close>

definition assign_step :: "real list \<Rightarrow> circuit \<Rightarrow> nat \<Rightarrow> circuit" where
  "assign_step vp c i = set_parameter c (variational_gates c ! i) (vp ! i)"

section \<open>The ADAPT controller\<close>

text \<open>
  Modelled from the spec: the class \<open>ADAPTSolver\<close> (the loop of section 4.3 of the
  specification, with the ranking of section 4.2) is not among the sources; the notebook
  only calls it. The external collaborators are parameters: the operator-pool function,
  the gradient of appending a pool operator to the current ansatz (a commutator
  expectation value), the classical optimizer, and the expectation value of an operator in
  the state an ansatz prepares. The Hamiltonian type \<open>'h\<close> and the generator type
  \<open>'g\<close> are left open.
\<close>

record ('h, 'g) backend =
  pool_fn :: "'h \<Rightarrow> nat \<Rightarrow> 'g list"
  gradient :: "'h \<Rightarrow> ('g \<times> real) list \<Rightarrow> 'g \<Rightarrow> real"
  optimize :: "'h \<Rightarrow> ('g \<times> real) list \<Rightarrow> real list \<times> real"
  expectation :: "('g \<times> real) list \<Rightarrow> 'h \<Rightarrow> real"

text \<open>
  Modelled from the spec: the options the solver is built from (the \<open>opt_dict\<close> of the
  notebook): the Hamiltonian to minimise, the arguments of the pool function, the gradient
  tolerance and the maximum number of cycles.
\<close>

record 'h opt_dict =
  opt_qubit_hamiltonian :: 'h
  pool_args :: "'h \<times> nat"
  tol :: real
  max_cycles :: nat

datatype termination_state = CONTINUE | CONVERGED | EXHAUSTED

text \<open>
  Modelled from the spec: the state the controller owns. The Hamiltonian and the operator
  pool are fixed at INIT; the ansatz is the sequence of (generator, parameter) pairs and
  the energy history has one entry per completed cycle.
\<close>

record ('h, 'g) adapt_state =
  working_hamiltonian :: 'h
  operator_pool :: "'g list"
  ansatz :: "('g \<times> real) list"
  energy_history :: "real list"

text \<open>
  Modelled from the spec (section 4.2): the ranker returns the pool index with the maximal
  absolute gradient and that magnitude; among equal magnitudes the lowest index wins. An
  empty pool has no candidate.
\<close>

fun best_of :: "nat \<times> real \<Rightarrow> (nat \<times> real) list \<Rightarrow> nat \<times> real" where
  "best_of b [] = b"
| "best_of (i, m) ((j, g) # rest) = (if m < g then best_of (j, g) rest else best_of (i, m) rest)"

definition rank_pool :: "real list \<Rightarrow> (nat \<times> real) option" where
  "rank_pool gradients =
     (case enumerate 0 (map abs gradients) of
        [] \<Rightarrow> None
      | first # rest \<Rightarrow> Some (best_of first rest))"

text \<open>
  Modelled from the spec: the optimizer returns a value for every parameter, and the
  controller writes them into the ansatz in place; a position the optimizer returned no
  value for keeps its warm-start value.
\<close>

definition reassign :: "('g \<times> real) list \<Rightarrow> real list \<Rightarrow> ('g \<times> real) list" where
  "reassign anz params =
     map (\<lambda>(k, (g, p)). (g, if k < length params then params ! k else p)) (enumerate 0 anz)"

text \<open>
  Modelled from the spec (section 4.3): one cycle. RANKING: below the tolerance the loop
  stops in CONVERGED, and so it does when there is no candidate (an empty pool is the
  degenerate case of section 7 and of scenario A); otherwise, when the maximum cycle count
  has been reached, it stops in EXHAUSTED; otherwise the winner is appended with parameter
  zero. OPTIMIZING: the optimizer runs over the whole parameter vector, and the minimised
  energy is appended to the history.
\<close>

definition adapt_cycle ::
  "('h, 'g) backend \<Rightarrow> real \<Rightarrow> nat \<Rightarrow> ('h, 'g) adapt_state
     \<Rightarrow> termination_state \<times> ('h, 'g) adapt_state" where
  "adapt_cycle B tolerance limit st =
     (case rank_pool (map (gradient B (working_hamiltonian st) (ansatz st)) (operator_pool st)) of
        None \<Rightarrow> (CONVERGED, st)
      | Some (winner, magnitude) \<Rightarrow>
          if magnitude < tolerance then (CONVERGED, st)
          else if limit \<le> length (ansatz st) then (EXHAUSTED, st)
          else
            (let grown = ansatz st @ [(operator_pool st ! winner, 0)];
                 (params, energy) = optimize B (working_hamiltonian st) grown
             in (CONTINUE,
                 st\<lparr>ansatz := reassign grown params,
                    energy_history := energy_history st @ [energy]\<rparr>)))"

text \<open>The loop: cycles are run until one of them stops.\<close>

function adapt_loop ::
  "('h, 'g) backend \<Rightarrow> real \<Rightarrow> nat \<Rightarrow> ('h, 'g) adapt_state
     \<Rightarrow> termination_state \<times> ('h, 'g) adapt_state" where
  "adapt_loop B tolerance limit st =
     (case adapt_cycle B tolerance limit st of
        (CONTINUE, st') \<Rightarrow> adapt_loop B tolerance limit st'
      | (status, st') \<Rightarrow> (status, st'))"
  by pat_completeness auto
termination
proof (relation "measure (\<lambda>(B, tolerance, limit, st). limit - length (ansatz st))")
  show "wf (measure (\<lambda>(B :: ('h, 'g) backend, tolerance :: real, limit, st :: ('h, 'g) adapt_state).
              limit - length (ansatz st)))"
    by simp
next
  fix B :: "('h, 'g) backend" and tolerance :: real and limit :: nat
    and st st' :: "('h, 'g) adapt_state" and status :: termination_state
  assume "(status, st') = adapt_cycle B tolerance limit st" "status = CONTINUE"
  then have c: "adapt_cycle B tolerance limit st = (CONTINUE, st')" by simp
  then have "length (ansatz st) < limit \<and> length (ansatz st') = Suc (length (ansatz st))"
    by (auto simp: adapt_cycle_def reassign_def Let_def
        split: option.splits if_splits prod.splits)
  then show "((B, tolerance, limit, st'), (B, tolerance, limit, st))
      \<in> measure (\<lambda>(B, tolerance, limit, st). limit - length (ansatz st))"
    by auto
qed

declare adapt_loop.simps [simp del]

text \<open>
  Modelled from the spec: INIT and the run. The pool is built once, from the pool
  arguments; the ansatz and the energy history start empty.
\<close>

definition adapt_init :: "('h, 'g) backend \<Rightarrow> 'h opt_dict \<Rightarrow> ('h, 'g) adapt_state" where
  "adapt_init B opts =
     \<lparr>working_hamiltonian = opt_qubit_hamiltonian opts,
      operator_pool = pool_fn B (fst (pool_args opts)) (snd (pool_args opts)),
      ansatz = [], energy_history = []\<rparr>"

definition adapt_simulate ::
  "('h, 'g) backend \<Rightarrow> 'h opt_dict \<Rightarrow> termination_state \<times> ('h, 'g) adapt_state" where
  "adapt_simulate B opts = adapt_loop B (tol opts) (max_cycles opts) (adapt_init B opts)"

text \<open>
  The penalty cell of the notebook, with the library calls that build the operators as
  parameters: \<open>add\<close> is the sum of two qubit Hamiltonians and \<open>pen\<close> the penalty
  Hamiltonian obtained from \<open>combined_penalty\<close>. The cell adds the penalty to the
  Hamiltonian once, hands the sum to the solver both as the Hamiltonian and as the
  argument of the pool function, and runs the solver with \<open>tol = 0.01\<close> and
  \<open>max_cycles = 12\<close>.
\<close>

definition penalty_opt_dict :: "('h \<Rightarrow> 'h \<Rightarrow> 'h) \<Rightarrow> 'h \<Rightarrow> 'h \<Rightarrow> nat \<Rightarrow> 'h opt_dict" where
  "penalty_opt_dict add qubit_ham pen_qubit_ham n_qb =
     (let qubit_hamiltonian_with_pen = add qubit_ham pen_qubit_ham
      in \<lparr>opt_qubit_hamiltonian = qubit_hamiltonian_with_pen,
           pool_args = (qubit_hamiltonian_with_pen, n_qb),
           tol = 1 / 100, max_cycles = 12\<rparr>)"

text \<open>
  What the run with penalties reports at its end: the final status and state of the
  solver, the energy of the penalised Hamiltonian that drove the optimisation, and the
  expectation value of the original Hamiltonian, which the notebook evaluates with
  \<open>operator_expectation(qubit_operator)\<close>.
\<close>

record ('h, 'g) penalty_report =
  final_status :: termination_state
  final_state :: "('h, 'g) adapt_state"
  penalized_energy :: real
  true_energy :: real

definition penalty_run ::
  "('h, 'g) backend \<Rightarrow> ('h \<Rightarrow> 'h \<Rightarrow> 'h) \<Rightarrow> 'h \<Rightarrow> 'h \<Rightarrow> nat \<Rightarrow> ('h, 'g) penalty_report" where
  "penalty_run B add qubit_ham pen_qubit_ham n_qb =
     (let opts = penalty_opt_dict add qubit_ham pen_qubit_ham n_qb;
          (status, st) = adapt_simulate B opts
      in \<lparr>final_status = status, final_state = st,
           penalized_energy = expectation B (ansatz st) (working_hamiltonian st),
           true_energy = expectation B (ansatz st) qubit_ham\<rparr>)"

text \<open>The state a cycle leaves.\<close>

definition cycle_state ::
  "('h, 'g) backend \<Rightarrow> real \<Rightarrow> nat \<Rightarrow> ('h, 'g) adapt_state \<Rightarrow> ('h, 'g) adapt_state" where
  "cycle_state B tolerance limit st = snd (adapt_cycle B tolerance limit st)"

text \<open>
  The state of the run with penalties after \<open>j\<close> cycles: the cycle function of the
  solver, with the tolerance and the cycle limit of the penalty cell, iterated from INIT.
\<close>

definition penalty_state ::
  "('h, 'g) backend \<Rightarrow> ('h \<Rightarrow> 'h \<Rightarrow> 'h) \<Rightarrow> 'h \<Rightarrow> 'h \<Rightarrow> nat \<Rightarrow> nat \<Rightarrow> ('h, 'g) adapt_state" where
  "penalty_state B add qubit_ham pen_qubit_ham n_qb j =
     (cycle_state B (1 / 100) 12 ^^ j) (adapt_init B (penalty_opt_dict add qubit_ham pen_qubit_ham n_qb))"

text \<open>
  What the specification says of a single cycle, by its outcome: a cycle that continues
  had room under the cycle limit, appends one generator of the pool, records one energy
  and leaves the Hamiltonian and the pool alone; a cycle that stops leaves the state as it
  is, in CONVERGED with every gradient magnitude below the tolerance, in EXHAUSTED with
  the cycle limit reached and some gradient magnitude not below the tolerance.
\<close>

definition cycle_spec ::
  "('h, 'g) backend \<Rightarrow> real \<Rightarrow> nat \<Rightarrow> ('h, 'g) adapt_state
     \<Rightarrow> termination_state \<Rightarrow> ('h, 'g) adapt_state \<Rightarrow> bool" where
  "cycle_spec B tolerance limit st status st' =
     (case status of
        CONTINUE \<Rightarrow>
          length (ansatz st) < limit \<and>
          (\<exists>winner < length (operator_pool st).
             map fst (ansatz st') = map fst (ansatz st) @ [operator_pool st ! winner]) \<and>
          length (energy_history st') = Suc (length (energy_history st)) \<and>
          working_hamiltonian st' = working_hamiltonian st \<and>
          operator_pool st' = operator_pool st
      | CONVERGED \<Rightarrow>
          st' = st \<and>
          list_all (\<lambda>g. \<bar>gradient B (working_hamiltonian st) (ansatz st) g\<bar> < tolerance)
            (operator_pool st)
      | EXHAUSTED \<Rightarrow>
          st' = st \<and> limit \<le> length (ansatz st) \<and>
          \<not> list_all (\<lambda>g. \<bar>gradient B (working_hamiltonian st) (ansatz st) g\<bar> < tolerance)
            (operator_pool st))"

section \<open>The loop body of \<open>get_pool\<close> on well-formed terms\<close>

lemma identify_length:
  "identify_factors ps0 t = Inr ps \<Longrightarrow> length ps = length ps0"
  by (induction ps0 t rule: identify_factors.induct)
     (auto split: option.splits if_splits)

lemma pauli_lookup_simps [simp]:
  "pauli_lookup I = None" "pauli_lookup Z = Some 1"
  "pauli_lookup X = Some 2" "pauli_lookup Y = Some 3"
  by (simp_all add: pauli_lookup_def)

lemma identify_Cons_cases:
  "identify_factors ps0 ((i, a) # rest) =
     (case a of I \<Rightarrow> Inl KeyError
      | Z \<Rightarrow> identify_factors ps0 rest
      | X \<Rightarrow> if i < length ps0 then identify_factors (ps0[i := 2]) rest else Inl IndexError
      | Y \<Rightarrow> if i < length ps0 then identify_factors (ps0[i := 3]) rest else Inl IndexError)"
  by (cases a) simp_all

lemma identify_values:
  "identify_factors ps0 t = Inr ps \<Longrightarrow> set ps0 \<subseteq> {0, 2, 3} \<Longrightarrow> set ps \<subseteq> {0, 2, 3}"
proof (induction t arbitrary: ps0)
  case Nil
  then show ?case by simp
next
  case (Cons f rest)
  obtain i a where f: "f = (i, a)" by (cases f)
  show ?case
  proof (cases a)
    case I with Cons.prems f show ?thesis by (simp add: identify_Cons_cases)
  next
    case Z with Cons f show ?thesis by (simp add: identify_Cons_cases)
  next
    case X
    with Cons.prems f have i: "i < length ps0" and r: "identify_factors (ps0[i := 2]) rest = Inr ps"
      by (auto simp: identify_Cons_cases split: if_splits)
    have "set (ps0[i := 2]) \<subseteq> insert 2 (set ps0)" by (rule set_update_subset_insert)
    with Cons.prems(2) have "set (ps0[i := 2]) \<subseteq> {0, 2, 3}" by auto
    with Cons.IH [OF r] show ?thesis .
  next
    case Y
    with Cons.prems f have i: "i < length ps0" and r: "identify_factors (ps0[i := 3]) rest = Inr ps"
      by (auto simp: identify_Cons_cases split: if_splits)
    have "set (ps0[i := 3]) \<subseteq> insert 3 (set ps0)" by (rule set_update_subset_insert)
    with Cons.prems(2) have "set (ps0[i := 3]) \<subseteq> {0, 2, 3}" by auto
    with Cons.IH [OF r] show ?thesis .
  qed
qed

lemma identify_nth:
  "identify_factors ps0 t = Inr ps \<Longrightarrow> distinct (map fst t) \<Longrightarrow> k < length ps0 \<Longrightarrow>
   ps ! k = (case map_of t k of Some X \<Rightarrow> 2 | Some Y \<Rightarrow> 3 | _ \<Rightarrow> ps0 ! k)"
proof (induction t arbitrary: ps0)
  case Nil
  then show ?case by simp
next
  case (Cons f rest)
  obtain i a where f: "f = (i, a)" by (cases f)
  from Cons.prems f have nin: "map_of rest i = None" and d: "distinct (map fst rest)"
    by (auto simp: map_of_eq_None_iff)
  show ?case
  proof (cases a)
    case I with Cons.prems f show ?thesis by (simp add: identify_Cons_cases)
  next
    case Z with Cons f nin show ?thesis by (auto simp: identify_Cons_cases)
  next
    case X
    with Cons.prems f have i: "i < length ps0" and r: "identify_factors (ps0[i := 2]) rest = Inr ps"
      by (auto simp: identify_Cons_cases split: if_splits)
    from Cons.IH [OF r d] Cons.prems(3) f X nin i show ?thesis
      by (auto simp: nth_list_update split: option.splits pauli.splits)
  next
    case Y
    with Cons.prems f have i: "i < length ps0" and r: "identify_factors (ps0[i := 3]) rest = Inr ps"
      by (auto simp: identify_Cons_cases split: if_splits)
    from Cons.IH [OF r d] Cons.prems(3) f Y nin i show ?thesis
      by (auto simp: nth_list_update split: option.splits pauli.splits)
  qed
qed

lemma identify_in_range:
  "identify_factors ps0 t = Inr ps \<Longrightarrow> xy_support t \<subseteq> {..<length ps0}"
  by (induction ps0 t rule: identify_factors.induct)
     (auto simp: xy_support_def xy_factors_def is_xy_def pauli_lookup_def split: option.splits if_splits)

lemma identify_defined:
  "I \<notin> snd ` set t \<Longrightarrow> xy_support t \<subseteq> {..<length ps0} \<Longrightarrow> \<exists>ps. identify_factors ps0 t = Inr ps"
proof (induction t arbitrary: ps0)
  case Nil
  then show ?case by simp
next
  case (Cons f rest)
  obtain i a where f: "f = (i, a)" by (cases f)
  from Cons.prems f have a: "a \<noteq> I" and r: "I \<notin> snd ` set rest"
    and s: "xy_support rest \<subseteq> {..<length ps0}" and i: "is_xy a \<Longrightarrow> i < length ps0"
    by (force simp: xy_support_def xy_factors_def split: if_splits)+
  show ?case
  proof (cases a)
    case I with a show ?thesis by simp
  next
    case Z with Cons.IH [OF r s] f show ?thesis by (simp add: identify_Cons_cases)
  next
    case X
    with i have "i < length ps0" by (simp add: is_xy_def)
    moreover from s have "xy_support rest \<subseteq> {..<length (ps0[i := 2])}" by simp
    ultimately show ?thesis using Cons.IH [OF r, of "ps0[i := 2]"] f X
      by (simp add: identify_Cons_cases)
  next
    case Y
    with i have "i < length ps0" by (simp add: is_xy_def)
    moreover from s have "xy_support rest \<subseteq> {..<length (ps0[i := 3])}" by simp
    ultimately show ?thesis using Cons.IH [OF r, of "ps0[i := 3]"] f Y
      by (simp add: identify_Cons_cases)
  qed
qed

lemma sum_list_update_int:
  "k < length xs \<Longrightarrow> sum_list (xs[k := x]) = sum_list xs + x - (xs ! k :: int)"
  by (induction xs arbitrary: k) (auto split: nat.splits)

lemma xy_weight_even: "even (xy_weight t) \<longleftrightarrow> even (y_count t)"
  by (induction t) (auto simp: xy_weight_def y_count_def split: pauli.splits)

lemma xy_weight_nonneg: "0 \<le> xy_weight t"
  by (induction t) (auto simp: xy_weight_def split: pauli.splits)

lemma xy_weight_pos: "0 < xy_weight t \<longleftrightarrow> has_xy t"
proof (induction t)
  case Nil
  show ?case by (simp add: xy_weight_def has_xy_def xy_factors_def)
next
  case (Cons f t)
  have "0 \<le> xy_weight t" by (rule xy_weight_nonneg)
  with Cons show ?case
    by (cases "snd f") (auto simp: xy_weight_def has_xy_def xy_factors_def is_xy_def)
qed

lemma identify_sum:
  "identify_factors ps0 t = Inr ps \<Longrightarrow> distinct (map fst t) \<Longrightarrow>
   \<forall>i \<in> fst ` set t. i < length ps0 \<longrightarrow> ps0 ! i = 0 \<Longrightarrow>
   sum_list ps = sum_list ps0 + xy_weight t"
proof (induction t arbitrary: ps0)
  case Nil
  then show ?case by (simp add: xy_weight_def)
next
  case (Cons f rest)
  obtain i a where f: "f = (i, a)" by (cases f)
  from Cons.prems f have d: "distinct (map fst rest)" and ni: "i \<notin> fst ` set rest"
    by auto
  have w: "xy_weight (f # rest) = (case a of X \<Rightarrow> 2 | Y \<Rightarrow> 3 | _ \<Rightarrow> 0) + xy_weight rest"
    by (simp add: xy_weight_def f)
  show ?case
  proof (cases a)
    case I with Cons.prems f show ?thesis by (simp add: identify_Cons_cases)
  next
    case Z
    with Cons.prems f have r: "identify_factors ps0 rest = Inr ps"
      by (simp add: identify_Cons_cases)
    from Cons.prems(3) have "\<forall>i \<in> fst ` set rest. i < length ps0 \<longrightarrow> ps0 ! i = 0" by simp
    from Cons.IH [OF r d this] w Z show ?thesis by simp
  next
    case X
    with Cons.prems f have i: "i < length ps0" and r: "identify_factors (ps0[i := 2]) rest = Inr ps"
      by (auto simp: identify_Cons_cases split: if_splits)
    from Cons.prems(3) f i have z: "ps0 ! i = 0" by simp
    have "\<forall>j \<in> fst ` set rest. j < length (ps0[i := 2]) \<longrightarrow> ps0[i := 2] ! j = 0"
    proof (intro ballI impI)
      fix j assume j: "j \<in> fst ` set rest" "j < length (ps0[i := 2])"
      with ni have "j \<noteq> i" by auto
      moreover from j Cons.prems(3) have "ps0 ! j = 0" by auto
      ultimately show "ps0[i := 2] ! j = 0" by simp
    qed
    from Cons.IH [OF r d this] w X i z show ?thesis
      by (simp add: sum_list_update_int)
  next
    case Y
    with Cons.prems f have i: "i < length ps0" and r: "identify_factors (ps0[i := 3]) rest = Inr ps"
      by (auto simp: identify_Cons_cases split: if_splits)
    from Cons.prems(3) f i have z: "ps0 ! i = 0" by simp
    have "\<forall>j \<in> fst ` set rest. j < length (ps0[i := 3]) \<longrightarrow> ps0[i := 3] ! j = 0"
    proof (intro ballI impI)
      fix j assume j: "j \<in> fst ` set rest" "j < length (ps0[i := 3])"
      with ni have "j \<noteq> i" by auto
      moreover from j Cons.prems(3) have "ps0 ! j = 0" by auto
      ultimately show "ps0[i := 3] ! j = 0" by simp
    qed
    from Cons.IH [OF r d this] w Y i z show ?thesis
      by (simp add: sum_list_update_int)
  qed
qed

lemma wf_term_distinct: "wf_term t \<Longrightarrow> distinct (map fst t)"
  by (simp add: wf_term_def strict_sorted_iff)

lemma identify_zero_sum:
  assumes "identify_factors (replicate n 0) t = Inr ps" "wf_term t"
  shows "sum_list ps = xy_weight t"
proof -
  have "sum_list (replicate n (0::int)) = 0" by (induction n) simp_all
  with identify_sum [OF assms(1) wf_term_distinct [OF assms(2)]] show ?thesis by simp
qed

lemma xy_factors_sorted: "wf_term t \<Longrightarrow> sorted_wrt (<) (map fst (xy_factors t))"
  unfolding wf_term_def xy_factors_def sorted_wrt_map
  by (simp add: sorted_wrt_filter)

lemma identify_xy_nth:
  assumes "identify_factors (replicate n 0) t = Inr ps" "wf_term t" "(i, a) \<in> set (xy_factors t)"
  shows "i < n \<and> ps ! i = (if a = X then 2 else 3)"
proof -
  from assms(3) have m: "(i, a) \<in> set t" and xy: "is_xy a" by (auto simp: xy_factors_def)
  from assms(3) have "i \<in> xy_support t" by (force simp: xy_support_def)
  with identify_in_range [OF assms(1)] have i: "i < n" by auto
  from m wf_term_distinct [OF assms(2)] have "map_of t i = Some a" by simp
  with identify_nth [OF assms(1) wf_term_distinct [OF assms(2)], of i] i xy
  show ?thesis by (auto simp: is_xy_def)
qed

lemma identify_gt1_iff:
  assumes "identify_factors (replicate n 0) t = Inr ps" "wf_term t" "i < n"
  shows "ps ! i > 1 \<longleftrightarrow> i \<in> xy_support t"
proof
  assume g: "ps ! i > 1"
  from identify_nth [OF assms(1) wf_term_distinct [OF assms(2)], of i] assms(3)
  have e: "ps ! i = (case map_of t i of Some X \<Rightarrow> 2 | Some Y \<Rightarrow> 3 | _ \<Rightarrow> 0)"
    by (simp split: option.splits pauli.splits)
  with g obtain a where a: "map_of t i = Some a" "is_xy a"
    by (auto simp: is_xy_def split: option.splits pauli.splits)
  then have "(i, a) \<in> set (xy_factors t)"
    by (auto simp: xy_factors_def dest: map_of_SomeD)
  then show "i \<in> xy_support t" by (force simp: xy_support_def)
next
  assume "i \<in> xy_support t"
  then obtain a where "(i, a) \<in> set (xy_factors t)" by (auto simp: xy_support_def)
  from identify_xy_nth [OF assms(1,2) this] show "ps ! i > 1" by auto
qed

lemma action_mask_eq:
  assumes "identify_factors (replicate n 0) t = Inr ps" "wf_term t"
  shows "map (\<lambda>p. p > 1) ps = action_mask_of n t"
proof (rule nth_equalityI)
  from identify_length [OF assms(1)] show "length (map (\<lambda>p. p > 1) ps) = length (action_mask_of n t)"
    by (simp add: action_mask_of_def)
next
  fix i assume "i < length (map (\<lambda>p. p > 1) ps)"
  with identify_length [OF assms(1)] have i: "i < n" by simp
  with identify_gt1_iff [OF assms i] identify_length [OF assms(1)]
  show "map (\<lambda>p. p > 1) ps ! i = action_mask_of n t ! i"
    by (simp add: action_mask_of_def)
qed

lemma where_gt1_eq:
  assumes "identify_factors (replicate n 0) t = Inr ps" "wf_term t"
  shows "where_gt1 ps = map fst (xy_factors t)"
proof (rule sorted_distinct_set_unique)
  show "sorted (where_gt1 ps)" "distinct (where_gt1 ps)"
    by (simp_all add: where_gt1_def sorted_wrt_filter)
  from xy_factors_sorted [OF assms(2)]
  show "sorted (map fst (xy_factors t))" "distinct (map fst (xy_factors t))"
    by (simp_all add: strict_sorted_iff)
  have len: "length ps = n" using identify_length [OF assms(1)] by simp
  show "set (where_gt1 ps) = set (map fst (xy_factors t))"
  proof (intro set_eqI iffI)
    fix i assume "i \<in> set (where_gt1 ps)"
    then have "i < n" "ps ! i > 1" by (auto simp: where_gt1_def len)
    with identify_gt1_iff [OF assms] show "i \<in> set (map fst (xy_factors t))"
      by (simp add: xy_support_def)
  next
    fix i assume "i \<in> set (map fst (xy_factors t))"
    then have s: "i \<in> xy_support t" by (simp add: xy_support_def)
    with identify_in_range [OF assms(1)] have i: "i < n" by auto
    with identify_gt1_iff [OF assms i] s show "i \<in> set (where_gt1 ps)"
      by (simp add: where_gt1_def len)
  qed
qed

lemma operator_tuple_of_enumerate:
  "set ps \<subseteq> {0, 2, 3} \<Longrightarrow>
   operator_tuple_of (enumerate k ps) =
     Inr (map (\<lambda>(i, p). (i, pauli_reverse_lookup ! nat p)) (filter (\<lambda>(i, p). p > 0) (enumerate k ps)))"
  by (induction ps arbitrary: k) (auto simp: pauli_reverse_lookup_def)

lemma operator_tuple_of_nth:
  assumes "set ps \<subseteq> {0, 2, 3}"
  shows "operator_tuple_of (enumerate 0 ps) =
     Inr (map (\<lambda>i. (i, pauli_reverse_lookup ! nat (ps ! i))) (filter (\<lambda>i. ps ! i > 0) [0..<length ps]))"
proof -
  have e: "enumerate 0 ps = map (\<lambda>i. (i, ps ! i)) [0..<length ps]"
    by (rule nth_equalityI) (simp_all add: nth_enumerate_eq)
  have "operator_tuple_of (enumerate 0 ps) =
     Inr (map (\<lambda>(i, p). (i, pauli_reverse_lookup ! nat p)) (filter (\<lambda>(i, p). p > 0) (enumerate 0 ps)))"
    by (rule operator_tuple_of_enumerate [OF assms])
  also have "\<dots> = Inr (map (\<lambda>i. (i, pauli_reverse_lookup ! nat (ps ! i))) (filter (\<lambda>i. ps ! i > 0) [0..<length ps]))"
    unfolding e by (simp add: filter_map comp_def)
  finally show ?thesis .
qed

lemma flipped_operator_tuple:
  assumes idf: "identify_factors (replicate n 0) t = Inr ps" and wf: "wf_term t"
    and xs: "xy_factors t = (i0, a0) # rest"
  shows "operator_tuple_of (enumerate 0 (ps[i0 := ps ! i0 + (- 1) ^ nat (ps ! i0 mod 2)])) =
           Inr ((i0, flip a0) # rest)"
proof -
  define fl where "fl = ps[i0 := ps ! i0 + (- 1) ^ nat (ps ! i0 mod 2)]"
  have len: "length ps = n" using identify_length [OF idf] by simp
  have vals: "set ps \<subseteq> {0, 2, 3}"
    by (rule identify_values [OF idf]) auto
  have "(i0, a0) \<in> set (xy_factors t)" using xs by simp
  then have a0: "is_xy a0" by (simp add: xy_factors_def)
  have i0: "i0 < n" and p0: "ps ! i0 = (if a0 = X then 2 else 3)"
    using identify_xy_nth [OF idf wf, of i0 a0] xs by simp_all
  have new: "ps ! i0 + (- 1) ^ nat (ps ! i0 mod 2) = (if a0 = X then 3 else 2)"
    using p0 by simp
  have fl: "fl = ps[i0 := (if a0 = X then 3 else 2)]"
    unfolding fl_def new ..
  have "set fl \<subseteq> insert (if a0 = X then 3 else 2) (set ps)"
    unfolding fl by (rule set_update_subset_insert)
  with vals have flvals: "set fl \<subseteq> {0, 2, 3}" by (cases "a0 = X") auto
  have "sorted_wrt (<) (map fst ((i0, a0) # rest))"
    using xy_factors_sorted [OF wf] by (simp only: xs)
  then have d: "distinct (map fst ((i0, a0) # rest))"
    by (simp only: strict_sorted_iff)
  have lenfl: "length fl = length ps" by (simp add: fl)
  have pos: "filter (\<lambda>i. fl ! i > 0) [0..<length fl] = where_gt1 ps"
    unfolding where_gt1_def lenfl
  proof (rule filter_cong [OF refl])
    fix i assume "i \<in> set [0..<length ps]"
    then have i: "i < length ps" by simp
    with vals have "ps ! i \<in> {0, 2, 3}" using nth_mem by blast
    with i p0 show "(0 < fl ! i) = (1 < ps ! i)"
      unfolding fl by (cases "i = i0") auto
  qed
  have rest: "map (\<lambda>i. (i, pauli_reverse_lookup ! nat (fl ! i))) (map fst rest) = rest"
  proof -
    have "map (\<lambda>f. (fst f, pauli_reverse_lookup ! nat (fl ! fst f))) rest = map (\<lambda>f. f) rest"
    proof (rule map_cong [OF refl])
      fix f assume f: "f \<in> set rest"
      obtain i a where ia: "f = (i, a)" by (cases f)
      with f xs have m: "(i, a) \<in> set (xy_factors t)" by simp
      from f ia d have ne: "i \<noteq> i0" by force
      from identify_xy_nth [OF idf wf m] have "ps ! i = (if a = X then 2 else 3)" by simp
      moreover from m have "is_xy a" by (auto simp: xy_factors_def)
      ultimately have "pauli_reverse_lookup ! nat (ps ! i) = a"
        by (auto simp: pauli_reverse_lookup_def is_xy_def)
      with ne ia show "(fst f, pauli_reverse_lookup ! nat (fl ! fst f)) = f"
        by (simp add: fl)
    qed
    then show ?thesis by (simp add: comp_def)
  qed
  have hd: "pauli_reverse_lookup ! nat (fl ! i0) = flip a0"
    using a0 i0 len by (auto simp: fl pauli_reverse_lookup_def is_xy_def flip_def)
  have "operator_tuple_of (enumerate 0 fl) =
      Inr (map (\<lambda>i. (i, pauli_reverse_lookup ! nat (fl ! i))) (where_gt1 ps))"
    unfolding operator_tuple_of_nth [OF flvals] pos ..
  also have "where_gt1 ps = i0 # map fst rest"
    using where_gt1_eq [OF idf wf] xs by simp
  finally have "operator_tuple_of (enumerate 0 fl) =
      Inr ((i0, pauli_reverse_lookup ! nat (fl ! i0)) #
           map (\<lambda>i. (i, pauli_reverse_lookup ! nat (fl ! i))) (map fst rest))"
    by (simp del: map_map)
  then show ?thesis
    unfolding fl_def [symmetric] rest hd .
qed

lemma get_pool_body_wf:
  assumes idf: "identify_factors (replicate n 0) t = Inr ps" and wf: "wf_term t"
  shows "get_pool_body n st t = Inr (pool_step n st t)"
proof -
  note mask = action_mask_eq [OF idf wf]
  note sm = identify_zero_sum [OF idf wf]
  have ev: "(xy_weight t mod 2 = 0) = even (y_count t)"
    using xy_weight_even [of t] by (simp add: even_iff_mod_2_eq_zero)
  have body: "get_pool_body n st t =
     (if action_mask_of n t \<in> set (indices st) then Inr st
      else if even (y_count t) \<and> has_xy t then
        (case where_gt1 ps of
           [] \<Rightarrow> Inl IndexError
         | flip_index # _ \<Rightarrow>
             (case operator_tuple_of (enumerate 0 (ps[flip_index :=
                       ps ! flip_index + (- 1) ^ nat (ps ! flip_index mod 2)])) of
                 Inl e \<Rightarrow> Inl e
               | Inr operator_tuple \<Rightarrow>
                   Inr (st\<lparr>indices := indices st @ [action_mask_of n t],
                           pool_generators :=
                             pool_generators st @ [QubitOperator operator_tuple \<i>],
                           pool_tuples := pool_tuples st @ [operator_tuple]\<rparr>)))
      else Inr st)"
    unfolding get_pool_body_def idf sum.case Let_def mask sm ev xy_weight_pos ..
  show ?thesis
  proof (cases "action_mask_of n t \<in> set (indices st) \<or> odd (y_count t) \<or> \<not> has_xy t")
    case True
    then show ?thesis
      unfolding body pool_step_def by auto
  next
    case False
    then have h: "has_xy t" by simp
    then obtain i0 a0 rest where xs: "xy_factors t = (i0, a0) # rest"
      by (cases "xy_factors t") (auto simp: has_xy_def)
    have w: "where_gt1 ps = i0 # map fst rest"
      using where_gt1_eq [OF idf wf] xs by simp
    have ff: "flip_first_xy t = (i0, flip a0) # rest"
      by (simp add: flip_first_xy_def xs)
    from False show ?thesis
      unfolding body pool_step_def w list.case flipped_operator_tuple [OF idf wf xs] sum.case ff
      by simp
  qed
qed

lemma get_pool_body_Inr:
  assumes wf: "wf_term t" and b: "get_pool_body n st t = Inr st'"
  shows "st' = pool_step n st t"
proof -
  from b obtain ps where idf: "identify_factors (replicate n 0) t = Inr ps"
    by (cases "identify_factors (replicate n 0) t") (simp_all add: get_pool_body_def)
  from get_pool_body_wf [OF idf wf, of st] b show ?thesis by simp
qed

lemma get_pool_body_defined:
  assumes wf: "wf_term t" and r: "xy_support t \<subseteq> {..<n}"
  shows "get_pool_body n st t = Inr (pool_step n st t)"
proof -
  from wf have "I \<notin> snd ` set t" by (simp add: wf_term_def)
  from identify_defined [OF this, of "replicate n 0"] r
  obtain ps where idf: "identify_factors (replicate n 0) t = Inr ps" by auto
  from get_pool_body_wf [OF idf wf] show ?thesis .
qed

lemma get_pool_body_in_range:
  "get_pool_body n st t = Inr st' \<Longrightarrow> xy_support t \<subseteq> {..<n}"
proof -
  assume b: "get_pool_body n st t = Inr st'"
  then obtain ps where idf: "identify_factors (replicate n 0) t = Inr ps"
    by (cases "identify_factors (replicate n 0) t") (simp_all add: get_pool_body_def)
  from identify_in_range [OF idf] show ?thesis by simp
qed

section \<open>The loop of \<open>get_pool\<close>\<close>

lemma get_pool_loop_wf:
  "list_all wf_term ts \<Longrightarrow> get_pool_loop n st ts = Inr st' \<Longrightarrow>
   st' = foldl (pool_step n) st ts \<and> (\<forall>t \<in> set ts. xy_support t \<subseteq> {..<n})"
proof (induction ts arbitrary: st)
  case Nil
  then show ?case by simp
next
  case (Cons t ts)
  from Cons.prems(2) obtain st1 where b: "get_pool_body n st t = Inr st1"
    and l: "get_pool_loop n st1 ts = Inr st'"
    by (cases "get_pool_body n st t") simp_all
  from Cons.prems(1) have wf: "wf_term t" and wfs: "list_all wf_term ts" by simp_all
  from get_pool_body_Inr [OF wf b] have s1: "st1 = pool_step n st t" .
  from Cons.IH [OF wfs l] s1 get_pool_body_in_range [OF b] show ?case by simp
qed

lemma get_pool_loop_defined:
  "list_all wf_term ts \<Longrightarrow> \<forall>t \<in> set ts. xy_support t \<subseteq> {..<n} \<Longrightarrow>
   get_pool_loop n st ts = Inr (foldl (pool_step n) st ts)"
proof (induction ts arbitrary: st)
  case Nil
  then show ?case by simp
next
  case (Cons t ts)
  from Cons.prems have wf: "wf_term t" and r: "xy_support t \<subseteq> {..<n}" by simp_all
  from Cons.prems have "get_pool_loop n (pool_step n st t) ts = Inr (foldl (pool_step n) (pool_step n st t) ts)"
    by (intro Cons.IH) simp_all
  with get_pool_body_defined [OF wf r, of st] show ?case by simp
qed

lemma get_pool_run_alt: "get_pool_run H n = get_pool_loop n (init_state H) (terms H)"
  by (simp add: get_pool_run_def init_state_def)

lemma get_pool_wf:
  assumes "wf_hamiltonian H" "get_pool H n = Inr pool"
  shows "pool = pool_generators (foldl (pool_step n) (init_state H) (terms H))"
    and "\<forall>t \<in> set (terms H). xy_support t \<subseteq> {..<n}"
proof -
  from assms(2) obtain st where r: "get_pool_loop n (init_state H) (terms H) = Inr st"
    and p: "pool = pool_generators st"
    by (cases "get_pool_run H n") (auto simp: get_pool_def get_pool_run_alt)
  from assms(1) have "list_all wf_term (terms H)" by (simp add: wf_hamiltonian_def)
  from get_pool_loop_wf [OF this r] p
  show "pool = pool_generators (foldl (pool_step n) (init_state H) (terms H))"
    and "\<forall>t \<in> set (terms H). xy_support t \<subseteq> {..<n}" by simp_all
qed

lemma get_pool_defined:
  assumes "wf_hamiltonian H" "\<forall>t \<in> set (terms H). xy_support t \<subseteq> {..<n}"
  shows "get_pool H n = Inr (pool_generators (foldl (pool_step n) (init_state H) (terms H)))"
proof -
  from assms(1) have "list_all wf_term (terms H)" by (simp add: wf_hamiltonian_def)
  from get_pool_loop_defined [OF this assms(2)] show ?thesis
    by (simp add: get_pool_def get_pool_run_alt)
qed

text \<open>Properties of the specification-level step.\<close>

lemma pool_step_generators:
  "pool_generators (pool_step n st t) =
     (if action_mask_of n t \<in> set (indices st) \<or> odd (y_count t) \<or> \<not> has_xy t
      then pool_generators st
      else pool_generators st @ [QubitOperator (flip_first_xy t) \<i>])"
  by (simp add: pool_step_def)

lemma pool_step_indices:
  "indices (pool_step n st t) =
     (if action_mask_of n t \<in> set (indices st) \<or> odd (y_count t) \<or> \<not> has_xy t
      then indices st
      else indices st @ [action_mask_of n t])"
  by (simp add: pool_step_def)

lemma generator_source:
  "g \<in> set (pool_generators (foldl (pool_step n) st ts)) \<Longrightarrow>
   g \<in> set (pool_generators st) \<or>
   (\<exists>t \<in> set ts. even (y_count t) \<and> has_xy t \<and> g = QubitOperator (flip_first_xy t) \<i>)"
proof (induction ts arbitrary: st)
  case Nil
  then show ?case by simp
next
  case (Cons t ts)
  from Cons.IH [of "pool_step n st t"] Cons.prems
  have "g \<in> set (pool_generators (pool_step n st t)) \<or>
     (\<exists>t \<in> set ts. even (y_count t) \<and> has_xy t \<and> g = QubitOperator (flip_first_xy t) \<i>)"
    by simp
  then show ?case
    by (auto simp: pool_step_generators split: if_splits)
qed

lemma xy_factors_no_Z:
  "I \<notin> snd ` set t \<Longrightarrow> xy_factors t = filter (\<lambda>f. snd f \<noteq> Z) t"
  unfolding xy_factors_def
proof (rule filter_cong [OF refl])
  fix f assume "I \<notin> snd ` set t" "f \<in> set t"
  then have "snd f \<noteq> I" by force
  then show "is_xy (snd f) = (snd f \<noteq> Z)"
    by (cases "snd f") (simp_all add: is_xy_def)
qed

lemma sorted_hd_Min:
  "sorted_wrt (<) (x # xs) \<Longrightarrow> (x :: nat) = Min (set (x # xs))"
  by (intro Min_eqI [symmetric]) (auto simp: less_imp_le)

lemma op_support_generator: "op_support (QubitOperator (flip_first_xy t) c) = xy_support t"
proof (cases "xy_factors t")
  case Nil
  then show ?thesis
    by (simp add: op_support_def terms_def QubitOperator_def flip_first_xy_def xy_support_def)
next
  case (Cons f rest)
  obtain i a where "f = (i, a)" by (cases f)
  with Cons show ?thesis
    by (simp add: op_support_def terms_def QubitOperator_def flip_first_xy_def xy_support_def)
qed

lemma pool_invariant:
  assumes "indices st = map (action_mask_of_op n) (pool_generators st)"
    "distinct (indices st)" "op_support ` set (pool_generators st) \<subseteq> S"
  shows "indices (foldl (pool_step n) st ts) =
           map (action_mask_of_op n) (pool_generators (foldl (pool_step n) st ts)) \<and>
         distinct (indices (foldl (pool_step n) st ts)) \<and>
         op_support ` set (pool_generators (foldl (pool_step n) st ts)) \<subseteq> S \<union> xy_support ` set ts"
  using assms
proof (induction ts arbitrary: st S)
  case Nil
  then show ?case by simp
next
  case (Cons t ts)
  have m: "action_mask_of_op n (QubitOperator (flip_first_xy t) \<i>) = action_mask_of n t"
    by (simp add: action_mask_of_op_def action_mask_of_def op_support_generator)
  have 1: "indices (pool_step n st t) = map (action_mask_of_op n) (pool_generators (pool_step n st t))"
    using Cons.prems(1) by (simp add: pool_step_indices pool_step_generators m)
  have 2: "distinct (indices (pool_step n st t))"
    using Cons.prems(2) by (simp add: pool_step_indices)
  have 3: "op_support ` set (pool_generators (pool_step n st t)) \<subseteq> S \<union> {xy_support t}"
    using Cons.prems(3) by (auto simp: pool_step_generators op_support_generator)
  from Cons.IH [OF 1 2 3] show ?case by auto
qed

lemma distinct_map_outer:
  assumes "distinct (map (g \<circ> f) xs)"
  shows "distinct (map f xs)"
proof -
  from assms have "distinct xs" "inj_on (g \<circ> f) (set xs)" by (simp_all add: distinct_map)
  then show ?thesis by (simp add: distinct_map inj_on_imageI2)
qed

lemma foldl_pool_step_skip:
  "\<forall>t \<in> set ts. \<not> has_xy t \<or> odd (y_count t) \<Longrightarrow> foldl (pool_step n) st ts = st"
  by (induction ts arbitrary: st) (auto simp: pool_step_def)

lemma indices_source:
  "m \<in> set (indices (foldl (pool_step n) st ts)) \<Longrightarrow>
   m \<in> set (indices st) \<or>
   (\<exists>t \<in> set ts. even (y_count t) \<and> has_xy t \<and> m = action_mask_of n t)"
proof (induction ts arbitrary: st)
  case Nil
  then show ?case by simp
next
  case (Cons t ts)
  from Cons.IH [of "pool_step n st t"] Cons.prems
  have "m \<in> set (indices (pool_step n st t)) \<or>
     (\<exists>t \<in> set ts. even (y_count t) \<and> has_xy t \<and> m = action_mask_of n t)"
    by simp
  then show ?case
    by (auto simp: pool_step_indices split: if_splits)
qed

lemma generators_mono:
  "set (pool_generators st) \<subseteq> set (pool_generators (foldl (pool_step n) st ts))"
proof (induction ts arbitrary: st)
  case Nil
  show ?case by simp
next
  case (Cons t ts)
  have "set (pool_generators st) \<subseteq> set (pool_generators (pool_step n st t))"
    by (auto simp: pool_step_generators)
  with Cons [of "pool_step n st t"] show ?case by auto
qed

lemma action_mask_of_inject:
  assumes "xy_support t \<subseteq> {..<n}" "xy_support t' \<subseteq> {..<n}"
    "action_mask_of n t = action_mask_of n t'"
  shows "xy_support t = xy_support t'"
proof -
  have "\<And>i. i < n \<Longrightarrow> (i \<in> xy_support t) = (i \<in> xy_support t')"
  proof -
    fix i assume i: "i < n"
    from assms(3) have "action_mask_of n t ! i = action_mask_of n t' ! i" by simp
    with i show "(i \<in> xy_support t) = (i \<in> xy_support t')"
      by (simp add: action_mask_of_def)
  qed
  with assms(1,2) show ?thesis by blast
qed

lemma generator_shape:
  assumes wf: "wf_term t" and h: "has_xy t"
  shows "\<exists>i0 a0 rest.
           filter (\<lambda>f. snd f \<noteq> Z) t = (i0, a0) # rest \<and>
           i0 = Min (xy_support t) \<and> (a0 = X \<or> a0 = Y) \<and>
           QubitOperator (flip_first_xy t) \<i> = [((i0, if a0 = X then Y else X) # rest, \<i>)]"
proof -
  from h obtain i0 a0 rest where xs: "xy_factors t = (i0, a0) # rest"
    by (cases "xy_factors t") (auto simp: has_xy_def)
  from wf have "I \<notin> snd ` set t" by (simp add: wf_term_def)
  from xy_factors_no_Z [OF this] xs have f: "filter (\<lambda>f. snd f \<noteq> Z) t = (i0, a0) # rest"
    by simp
  have "(i0, a0) \<in> set (xy_factors t)" using xs by simp
  then have a: "a0 = X \<or> a0 = Y" by (simp add: xy_factors_def is_xy_def)
  have "sorted_wrt (<) (map fst ((i0, a0) # rest))"
    using xy_factors_sorted [OF wf] by (simp only: xs)
  then have "sorted_wrt (<) (i0 # map fst rest)" by simp
  from sorted_hd_Min [OF this] have m: "i0 = Min (xy_support t)"
    by (simp add: xy_support_def xs)
  from a have "flip a0 = (if a0 = X then Y else X)" by (auto simp: flip_def)
  then have "QubitOperator (flip_first_xy t) \<i> = [((i0, if a0 = X then Y else X) # rest, \<i>)]"
    by (simp add: QubitOperator_def flip_first_xy_def xs)
  with f m a show ?thesis by blast
qed

lemma first_accepted_in_pool:
  assumes r: "\<forall>t \<in> set ts. xy_support t \<subseteq> {..<n}"
    and t: "t \<in> set ts" "even (y_count t)" "has_xy t"
  shows "\<exists>t' \<in> set ts. xy_support t' = xy_support t \<and> even (y_count t') \<and> has_xy t' \<and>
           QubitOperator (flip_first_xy t') \<i>
             \<in> set (pool_generators (foldl (pool_step n) (init_state H) ts))"
proof -
  let ?P = "\<lambda>x. even (y_count x) \<and> has_xy x \<and> xy_support x = xy_support t"
  from t have "\<exists>x \<in> set ts. ?P x" by blast
  from split_list_first_prop [OF this] obtain ys x zs where
    ts: "ts = ys @ x # zs" and px: "?P x" and nys: "\<forall>y \<in> set ys. \<not> ?P y"
    by blast
  let ?st1 = "foldl (pool_step n) (init_state H) ys"
  have fresh: "action_mask_of n x \<notin> set (indices ?st1)"
  proof
    assume "action_mask_of n x \<in> set (indices ?st1)"
    from indices_source [OF this] obtain t1 where t1: "t1 \<in> set ys"
      "even (y_count t1)" "has_xy t1" "action_mask_of n x = action_mask_of n t1"
      by (auto simp: init_state_def)
    from r t1(1) ts have "xy_support t1 \<subseteq> {..<n}" "xy_support x \<subseteq> {..<n}" by simp_all
    from action_mask_of_inject [OF this] t1(4) have "xy_support t1 = xy_support x" by simp
    with px t1(2,3) have "?P t1" by simp
    with nys t1(1) show False by blast
  qed
  with px have "QubitOperator (flip_first_xy x) \<i> \<in> set (pool_generators (pool_step n ?st1 x))"
    by (simp add: pool_step_generators)
  with generators_mono [of "pool_step n ?st1 x" n zs]
  have "QubitOperator (flip_first_xy x) \<i>
      \<in> set (pool_generators (foldl (pool_step n) (init_state H) ts))"
    unfolding ts by auto
  with px ts show ?thesis by auto
qed

section \<open>The call on a store simulates \<open>get_pool\<close>\<close>

lemma list_update_same: "s ! a = x \<Longrightarrow> s[a := x] = s"
  by (metis list_update_id)

lemma store_identify_factors_sim:
  assumes "a < length s" "s ! a = ArrayObj xs"
  shows "\<exists>zs. snd (store_identify_factors a t s) = s[a := ArrayObj zs] \<and>
           (case identify_factors xs t of
              Inl e \<Rightarrow> fst (store_identify_factors a t s) = Inl e
            | Inr ys \<Rightarrow> fst (store_identify_factors a t s) = Inr () \<and> zs = ys)"
  using assms
proof (induction t arbitrary: s xs)
  case Nil
  then show ?case by (auto intro: exI [of _ xs] simp: list_update_same)
next
  case (Cons f t)
  obtain index action where f: "f = (index, action)" by (cases f)
  show ?case
  proof (cases "pauli_lookup action")
    case None
    with Cons.prems f show ?thesis
      by (auto intro: exI [of _ xs] simp: list_update_same)
  next
    case (Some code)
    show ?thesis
    proof (cases "code > 1")
      case False
      with Some f have e: "store_identify_factors a (f # t) s = store_identify_factors a t s"
        "identify_factors xs (f # t) = identify_factors xs t" by simp_all
      show ?thesis unfolding e by (rule Cons.IH [OF Cons.prems])
    next
      case True
      show ?thesis
      proof (cases "index < length xs")
        case False
        with True Some f Cons.prems show ?thesis
          by (auto intro: exI [of _ xs] simp: list_update_same array_setitem_def deref_def)
      next
        case i: True
        let ?s' = "s[a := ArrayObj (xs[index := code])]"
        have w: "array_setitem a index code s = (Inr (), ?s')"
          using i Cons.prems by (simp add: array_setitem_def deref_def)
        have "a < length ?s'" "?s' ! a = ArrayObj (xs[index := code])"
          using Cons.prems by simp_all
        from Cons.IH [OF this] obtain zs where
          z: "snd (store_identify_factors a t ?s') = ?s'[a := ArrayObj zs]"
            "(case identify_factors (xs[index := code]) t of
              Inl e \<Rightarrow> fst (store_identify_factors a t ?s') = Inl e
            | Inr ys \<Rightarrow> fst (store_identify_factors a t ?s') = Inr () \<and> zs = ys)"
          by blast
        from True Some f i w
        have e: "store_identify_factors a (f # t) s = store_identify_factors a t ?s'"
          "identify_factors xs (f # t) = identify_factors (xs[index := code]) t" by simp_all
        from z(1) have "snd (store_identify_factors a t ?s') = s[a := ArrayObj zs]" by simp
        with z(2) show ?thesis unfolding e by blast
      qed
    qed
  qed
qed


lemma where_gt1_lt:
  assumes "where_gt1 ys = fi # r"
  shows "fi < length ys"
proof -
  from assms have "fi \<in> set (where_gt1 ys)" by simp
  then show ?thesis by (simp add: where_gt1_def)
qed

lemma pool_rel_append:
  assumes "pool_rel s0 fr s st"
  shows "pool_rel s0 fr (s @ [x]) st"
proof -
  from assms obtain gs where
    g: "s ! v_pool_generators fr = ListObj (map Ref gs)"
       "list_all2 (\<lambda>g op. g < length s \<and> length s0 \<le> g \<and> g \<noteq> v_indices fr \<and>
                              g \<noteq> v_pool_generators fr \<and> g \<noteq> v_pool_tuples fr \<and>
                              s ! g = OperatorObj op) gs (pool_generators st)"
    unfolding pool_rel_def by blast
  from g(2) have "list_all2 (\<lambda>g op. g < length (s @ [x]) \<and> length s0 \<le> g \<and> g \<noteq> v_indices fr \<and>
                              g \<noteq> v_pool_generators fr \<and> g \<noteq> v_pool_tuples fr \<and>
                              (s @ [x]) ! g = OperatorObj op) gs (pool_generators st)"
    by (rule list_all2_mono) (simp add: nth_append)
  with g(1) assms show ?thesis
    unfolding pool_rel_def by (auto simp: nth_append)
qed

lemma store_get_pool_body_sim:
  assumes "pool_rel s0 fr s st"
  shows "take (length s0) (snd (store_get_pool_body n fr t s)) = s0 \<and>
         (case get_pool_body n st t of
            Inl e \<Rightarrow> fst (store_get_pool_body n fr t s) = Inl e
          | Inr st' \<Rightarrow> fst (store_get_pool_body n fr t s) = Inr () \<and>
                        pool_rel s0 fr (snd (store_get_pool_body n fr t s)) st')"
proof -
  let ?ix = "v_indices fr" and ?pg = "v_pool_generators fr" and ?pt = "v_pool_tuples fr"
  let ?ps = "length s"
  let ?s1 = "s @ [ArrayObj (replicate n 0)]"
  from assms obtain gs where
    fr: "take (length s0) s = s0" "length s0 \<le> length s"
      "length s0 \<le> ?ix" "length s0 \<le> ?pg" "length s0 \<le> ?pt"
      "?ix < length s" "?pg < length s" "?pt < length s"
      "?ix \<noteq> ?pg" "?ix \<noteq> ?pt" "?pg \<noteq> ?pt"
    and ix: "s ! ?ix = ListObj (map MaskTuple (indices st))"
    and pt: "s ! ?pt = ListObj (map TermTuple (pool_tuples st))"
    and pg: "s ! ?pg = ListObj (map Ref gs)"
    and gs: "list_all2 (\<lambda>g op. g < length s \<and> length s0 \<le> g \<and> g \<noteq> ?ix \<and>
                              g \<noteq> ?pg \<and> g \<noteq> ?pt \<and> s ! g = OperatorObj op)
              gs (pool_generators st)"
    unfolding pool_rel_def by blast
  have a1: "alloc (ArrayObj (replicate n 0)) s = (Inr ?ps, ?s1)" by (simp add: alloc_def)
  have "?ps < length ?s1" "?s1 ! ?ps = ArrayObj (replicate n 0)" by simp_all
  from store_identify_factors_sim [OF this, of t] obtain zs where
    z: "snd (store_identify_factors ?ps t ?s1) = s @ [ArrayObj zs]"
       "(case identify_factors (replicate n 0) t of
              Inl e \<Rightarrow> fst (store_identify_factors ?ps t ?s1) = Inl e
            | Inr ys \<Rightarrow> fst (store_identify_factors ?ps t ?s1) = Inr () \<and> zs = ys)"
    by auto
  let ?s2 = "s @ [ArrayObj zs]"
  have r2: "pool_rel s0 fr ?s2 st" using assms by (rule pool_rel_append)
  have t2: "take (length s0) ?s2 = s0" using fr(1,2) by simp
  show ?thesis
  proof (cases "identify_factors (replicate n 0) t")
    case (Inl e)
    with z have "store_identify_factors ?ps t ?s1 = (Inl e, ?s2)"
      by (simp add: prod_eq_iff)
    then have "store_get_pool_body n fr t s = (Inl e, ?s2)"
      unfolding store_get_pool_body_def
      by (subst h_bind_def, simp only: a1 prod.case sum.case, subst h_bind_def) simp
    then have bs: "store_get_pool_body n fr t s = (Inl e, ?s2)" .
    from Inl have gb: "get_pool_body n st t = Inl e" by (simp add: get_pool_body_def)
    from t2 show ?thesis unfolding bs gb by simp
  next
    case (Inr ys)
    with z have i: "store_identify_factors ?ps t ?s1 = (Inr (), ?s2)" and zy: "zs = ys"
      by (simp_all add: prod_eq_iff)
    let ?mask = "map (\<lambda>p. p > 1) ys"
    have ag: "array_get ?ps ?s2 = (Inr ys, ?s2)"
      by (simp add: array_get_def deref_def zy)
    have lg: "list_get ?ix ?s2 = (Inr (map MaskTuple (indices st)), ?s2)"
      using fr(6) ix by (simp add: list_get_def deref_def nth_append)
    have mem: "MaskTuple ?mask \<in> MaskTuple ` set (indices st) \<longleftrightarrow> ?mask \<in> set (indices st)"
      by auto
    have b0: "store_get_pool_body n fr t s =
        (if ?mask \<in> set (indices st) then (Inr (), ?s2)
         else if sum_list ys mod 2 = 0 \<and> sum_list ys > 0 then
           (case where_gt1 ys of
              [] \<Rightarrow> (Inl IndexError, ?s2)
            | flip_index # others \<Rightarrow>
              h_bind (array_setitem ?ps flip_index
                        (ys ! flip_index + (- 1) ^ nat (ys ! flip_index mod 2))) (\<lambda>u.
              h_bind (list_append ?ix (MaskTuple ?mask)) (\<lambda>u.
              h_bind (array_get ?ps) (\<lambda>flipped.
              h_bind (\<lambda>s. (operator_tuple_of (enumerate 0 flipped), s)) (\<lambda>operator_tuple.
              h_bind (alloc (OperatorObj (QubitOperator operator_tuple \<i>))) (\<lambda>generator.
              h_bind (list_append ?pg (Ref generator)) (\<lambda>u.
              list_append ?pt (TermTuple operator_tuple))))))) ?s2)
         else (Inr (), ?s2))"
      unfolding store_get_pool_body_def
      by (subst h_bind_def, simp only: a1 prod.case sum.case,
          subst h_bind_def, simp only: i prod.case sum.case,
          subst h_bind_def, simp only: ag prod.case sum.case,
          subst h_bind_def, simp only: lg prod.case sum.case)
         (simp add: mem h_return_def h_raise_def split: list.splits)
    show ?thesis
    proof (cases "?mask \<in> set (indices st)")
      case True
      with b0 have bs: "store_get_pool_body n fr t s = (Inr (), ?s2)" by simp
      from True Inr have gb: "get_pool_body n st t = Inr st"
        by (simp add: get_pool_body_def Let_def)
      from r2 t2 show ?thesis unfolding bs gb by simp
    next
      case nm: False
      show ?thesis
      proof (cases "sum_list ys mod 2 = 0 \<and> sum_list ys > 0")
        case False
        with nm b0 have bs: "store_get_pool_body n fr t s = (Inr (), ?s2)" by auto
        from False nm Inr have gb: "get_pool_body n st t = Inr st"
          by (auto simp: get_pool_body_def Let_def)
        from r2 t2 show ?thesis unfolding bs gb by simp
      next
        case ev: True
        show ?thesis
        proof (cases "where_gt1 ys")
          case Nil
          with ev nm b0 have bs: "store_get_pool_body n fr t s = (Inl IndexError, ?s2)" by simp
          from Nil ev nm Inr have gb: "get_pool_body n st t = Inl IndexError"
            by (simp add: get_pool_body_def Let_def)
          from t2 show ?thesis unfolding bs gb by simp
        next
          case (Cons fi others)
          from where_gt1_lt [OF Cons] have fl: "fi < length ys" .
          let ?fl = "ys[fi := ys ! fi + (- 1) ^ nat (ys ! fi mod 2)]"
          let ?s4 = "(s @ [ArrayObj ?fl])[?ix := ListObj (map MaskTuple (indices st) @ [MaskTuple ?mask])]"
          have w3: "array_setitem ?ps fi (ys ! fi + (- 1) ^ nat (ys ! fi mod 2)) ?s2 =
                      (Inr (), s @ [ArrayObj ?fl])"
            using fl by (simp add: array_setitem_def deref_def zy)
          have w4: "list_append ?ix (MaskTuple ?mask) (s @ [ArrayObj ?fl]) = (Inr (), ?s4)"
            using fr(6) ix by (simp add: list_append_def deref_def nth_append)
          have g4: "array_get ?ps ?s4 = (Inr ?fl, ?s4)"
            using fr(6) by (simp add: array_get_def deref_def)
          have t4: "take (length s0) ?s4 = s0"
            using fr(1,2,3) by (simp add: take_update_cancel)
          have b1: "store_get_pool_body n fr t s =
              h_bind (\<lambda>s. (operator_tuple_of (enumerate 0 ?fl), s)) (\<lambda>operator_tuple.
              h_bind (alloc (OperatorObj (QubitOperator operator_tuple \<i>))) (\<lambda>generator.
              h_bind (list_append ?pg (Ref generator)) (\<lambda>u.
              list_append ?pt (TermTuple operator_tuple)))) ?s4"
            unfolding b0 using nm ev Cons
            by (simp only: if_False if_True list.case simp_thms,
                subst h_bind_def, simp only: w3 prod.case sum.case,
                subst h_bind_def, simp only: w4 prod.case sum.case,
                subst h_bind_def, simp only: g4 prod.case sum.case)
          show ?thesis
          proof (cases "operator_tuple_of (enumerate 0 ?fl)")
            case (Inl e)
            with b1 have bs: "store_get_pool_body n fr t s = (Inl e, ?s4)"
              by (subst (asm) h_bind_def) simp
            from Inl Inr nm ev Cons have gb: "get_pool_body n st t = Inl e"
              by (simp add: get_pool_body_def Let_def)
            from t4 show ?thesis unfolding bs gb by simp
          next
            case tup: (Inr tup)
            let ?g = "Suc (length s)"
            let ?s5 = "?s4 @ [OperatorObj (QubitOperator tup \<i>)]"
            let ?s6 = "?s5[?pg := ListObj (map Ref gs @ [Ref ?g])]"
            let ?s7 = "?s6[?pt := ListObj (map TermTuple (pool_tuples st) @ [TermTuple tup])]"
            let ?st' = "st\<lparr>indices := indices st @ [?mask],
                           pool_generators := pool_generators st @ [QubitOperator tup \<i>],
                           pool_tuples := pool_tuples st @ [tup]\<rparr>"
            have w6: "list_append ?pg (Ref ?g) ?s5 = (Inr (), ?s6)"
              using fr(7,9) pg by (simp add: list_append_def deref_def nth_append)
            have w7: "list_append ?pt (TermTuple tup) ?s6 = (Inr (), ?s7)"
              using fr(8,10,11) pt by (simp add: list_append_def deref_def nth_append)
            have a5: "alloc (OperatorObj (QubitOperator tup \<i>)) ?s4 = (Inr ?g, ?s5)"
              by (simp add: alloc_def)
            have o5: "(\<lambda>s. (operator_tuple_of (enumerate 0 ?fl), s)) ?s4 = (Inr tup, ?s4)"
              by (simp add: tup)
            have b2: "store_get_pool_body n fr t s = (Inr (), ?s7)"
              unfolding b1
              by (subst h_bind_def, simp only: tup prod.case sum.case,
                  subst h_bind_def, simp only: a5 prod.case sum.case,
                  subst h_bind_def, simp only: w6 prod.case sum.case, rule w7)
            have gb: "get_pool_body n st t = Inr ?st'"
              using tup Inr nm ev Cons by (simp add: get_pool_body_def Let_def)
            have t7: "take (length s0) ?s7 = s0"
              using fr(1-5) by (simp add: take_update_cancel)
            have old: "list_all2 (\<lambda>g op. g < length ?s7 \<and> length s0 \<le> g \<and> g \<noteq> ?ix \<and>
                              g \<noteq> ?pg \<and> g \<noteq> ?pt \<and> ?s7 ! g = OperatorObj op)
                        gs (pool_generators st)"
              using gs by (rule list_all2_mono) (simp add: nth_append)
            have new: "?g < length ?s7 \<and> length s0 \<le> ?g \<and> ?g \<noteq> ?ix \<and> ?g \<noteq> ?pg \<and> ?g \<noteq> ?pt \<and>
                       ?s7 ! ?g = OperatorObj (QubitOperator tup \<i>)"
              using fr(2,6,7,8) by (simp add: nth_append)
            from old new have all: "list_all2 (\<lambda>g op. g < length ?s7 \<and> length s0 \<le> g \<and> g \<noteq> ?ix \<and>
                              g \<noteq> ?pg \<and> g \<noteq> ?pt \<and> ?s7 ! g = OperatorObj op)
                        (gs @ [?g]) (pool_generators ?st')"
              by (simp add: list_all2_appendI)
            have p7: "?s7 ! ?pg = ListObj (map Ref (gs @ [?g]))"
              using fr(7,11) by simp
            have i7: "?s7 ! ?ix = ListObj (map MaskTuple (indices ?st'))"
              using fr(6,9,10) by (simp add: nth_append)
            have u7: "?s7 ! ?pt = ListObj (map TermTuple (pool_tuples ?st'))"
              using fr(8) by simp
            have "pool_rel s0 fr ?s7 ?st'"
              unfolding pool_rel_def
              using t7 fr(2-11) i7 u7 p7 all by (intro conjI exI [of _ "gs @ [?g]"]) simp_all
            with t7 show ?thesis unfolding b2 gb by simp
          qed
        qed
      qed
    qed
  qed
qed


lemma store_get_pool_loop_sim:
  assumes "pool_rel s0 fr s st" "v_qubit_hamiltonian fr < length s0"
    "s0 ! v_qubit_hamiltonian fr = OperatorObj H" "k \<le> length H"
  shows "take (length s0) (snd (store_get_pool_loop n fr (length H) k s)) = s0 \<and>
         (case get_pool_loop n st (drop (length H - k) (terms H)) of
            Inl e \<Rightarrow> fst (store_get_pool_loop n fr (length H) k s) = Inl e
          | Inr st' \<Rightarrow> fst (store_get_pool_loop n fr (length H) k s) = Inr () \<and>
                        pool_rel s0 fr (snd (store_get_pool_loop n fr (length H) k s)) st')"
  using assms(1,4)
proof (induction k arbitrary: s st)
  case 0
  then show ?case by (simp add: terms_def pool_rel_def)
next
  case (Suc k)
  let ?qh = "v_qubit_hamiltonian fr"
  let ?t = "terms H ! (length H - Suc k)"
  from Suc.prems(1) have f: "take (length s0) s = s0" "length s0 \<le> length s"
    by (simp_all add: pool_rel_def)
  from f assms(2) have "s ! ?qh = s0 ! ?qh" by (metis nth_take)
  with assms(2,3) f(2) have d: "dict_terms ?qh s = (Inr (terms H), s)"
    by (simp add: dict_terms_def deref_def)
  have l: "length (terms H) = length H" by (simp add: terms_def)
  from Suc.prems(2) have dr: "drop (length H - Suc k) (terms H) = ?t # drop (length H - k) (terms H)"
    using Cons_nth_drop_Suc [of "length H - Suc k" "terms H"] l
    by (simp add: Suc_diff_Suc)
  note b = store_get_pool_body_sim [OF Suc.prems(1), of n ?t]
  show ?case
  proof (cases "get_pool_body n st ?t")
    case (Inl e)
    with b have "fst (store_get_pool_body n fr ?t s) = Inl e" by simp
    then have "store_get_pool_loop n fr (length H) (Suc k) s = (Inl e, snd (store_get_pool_body n fr ?t s))"
      by (cases "store_get_pool_body n fr ?t s") (simp add: d l)
    moreover have "get_pool_loop n st (drop (length H - Suc k) (terms H)) = Inl e"
      unfolding dr using Inl by simp
    ultimately show ?thesis using b by simp
  next
    case (Inr st')
    with b have r: "fst (store_get_pool_body n fr ?t s) = Inr ()"
      "pool_rel s0 fr (snd (store_get_pool_body n fr ?t s)) st'" by simp_all
    from r(1) have e1: "store_get_pool_loop n fr (length H) (Suc k) s =
        store_get_pool_loop n fr (length H) k (snd (store_get_pool_body n fr ?t s))"
      by (cases "store_get_pool_body n fr ?t s") (simp add: d l)
    have e2: "get_pool_loop n st (drop (length H - Suc k) (terms H)) =
        get_pool_loop n st' (drop (length H - k) (terms H))"
      unfolding dr using Inr by simp
    from Suc.prems(2) have "k \<le> length H" by simp
    from Suc.IH [OF r(2) this] show ?thesis unfolding e1 e2 .
  qed
qed

lemma operator_at_Ref:
  "g < length s \<Longrightarrow> s ! g = OperatorObj op \<Longrightarrow> operator_at s (Ref g) = Some op"
  by (simp add: operator_at_def deref_def)

lemma those_operator_at:
  assumes "list_all2 (\<lambda>g op. g < length s \<and> P g \<and> s ! g = OperatorObj op) gs ops"
  shows "those (map (operator_at s) (map Ref gs)) = Some ops"
  using assms
  by (induction gs ops rule: list_all2_induct) (simp_all add: operator_at_Ref)

lemma store_get_pool_start:
  "store_get_pool qh n s =
      h_bind (dict_terms qh) (\<lambda>ts.
        h_bind (store_get_pool_loop n
                 \<lparr>v_qubit_hamiltonian = qh, v_indices = Suc (Suc (length s)),
                  v_pool_generators = length s, v_pool_tuples = Suc (length s)\<rparr>
                 (length ts) (length ts)) (\<lambda>u.
          h_return (length s))) (s @ [ListObj [], ListObj [], ListObj []])"
  unfolding store_get_pool_def
  by (subst h_bind_def, simp only: alloc_def prod.case sum.case,
      subst h_bind_def, simp only: alloc_def prod.case sum.case,
      subst h_bind_def, simp only: alloc_def prod.case sum.case) simp

lemma store_get_pool_eval:
  assumes "qh < length s" "s ! qh = OperatorObj H"
    "store_get_pool_loop n
       \<lparr>v_qubit_hamiltonian = qh, v_indices = Suc (Suc (length s)),
        v_pool_generators = length s, v_pool_tuples = Suc (length s)\<rparr>
       (length H) (length H) (s @ [ListObj [], ListObj [], ListObj []]) = (r, s')"
  shows "store_get_pool qh n s = (case r of Inl e \<Rightarrow> Inl e | Inr u \<Rightarrow> Inr (length s), s')"
proof -
  let ?s3 = "s @ [ListObj [], ListObj [], ListObj []]"
  from assms(1,2) have d: "dict_terms qh ?s3 = (Inr (terms H), ?s3)"
    by (simp add: dict_terms_def deref_def nth_append)
  have l: "length (terms H) = length H" by (simp add: terms_def)
  show ?thesis
    unfolding store_get_pool_start
    by (subst h_bind_def, simp only: d prod.case sum.case l, subst h_bind_def,
        simp only: assms(3) prod.case)
       (simp add: h_return_def split: sum.splits)
qed

lemma store_get_pool_not_operator:
  assumes "\<not> (\<exists>H. deref s qh = Some (OperatorObj H))"
  shows "store_get_pool qh n s = (Inl AttributeError, s @ [ListObj [], ListObj [], ListObj []])"
proof -
  let ?s3 = "s @ [ListObj [], ListObj [], ListObj []]"
  have "?s3 ! qh = ListObj []" if "\<not> qh < length s" "qh < length ?s3"
    using that by (auto simp: nth_append nth_Cons')
  with assms have "dict_terms qh ?s3 = (Inl AttributeError, ?s3)"
    by (cases "qh < length s")
       (auto simp: dict_terms_def deref_def nth_append split: option.splits py_object.splits)
  then show ?thesis unfolding store_get_pool_start by (subst h_bind_def) simp
qed

lemma pool_rel_start:
  "pool_rel s \<lparr>v_qubit_hamiltonian = qh, v_indices = Suc (Suc (length s)),
        v_pool_generators = length s, v_pool_tuples = Suc (length s)\<rparr>
      (s @ [ListObj [], ListObj [], ListObj []]) (init_state H)"
  by (simp add: pool_rel_def init_state_def nth_append)

lemma store_get_pool_frame:
  "take (length s) (snd (store_get_pool qh n s)) = s"
proof (cases "\<exists>H. deref s qh = Some (OperatorObj H)")
  case False
  from store_get_pool_not_operator [OF this] show ?thesis by simp
next
  case True
  let ?s3 = "s @ [ListObj [], ListObj [], ListObj []]"
  let ?fr = "\<lparr>v_qubit_hamiltonian = qh, v_indices = Suc (Suc (length s)),
              v_pool_generators = length s, v_pool_tuples = Suc (length s)\<rparr>"
  from True obtain H where H: "qh < length s" "s ! qh = OperatorObj H"
    by (auto simp: deref_def split: if_splits)
  obtain r s' where L: "store_get_pool_loop n ?fr (length H) (length H) ?s3 = (r, s')"
    by (cases "store_get_pool_loop n ?fr (length H) (length H) ?s3")
  have "v_qubit_hamiltonian ?fr < length s" "s ! v_qubit_hamiltonian ?fr = OperatorObj H"
    using H by simp_all
  from store_get_pool_loop_sim [OF pool_rel_start this le_refl, of n]
  have "take (length s) s' = s" unfolding L by simp
  with store_get_pool_eval [OF H L] show ?thesis by simp
qed

lemma store_get_pool_sim:
  assumes "deref s qh = Some (OperatorObj H)"
  shows "returned_pool (store_get_pool qh n s) = Some (get_pool H n) \<and>
         (\<forall>a. fst (store_get_pool qh n s) = Inr a \<longrightarrow> a = length s)"
proof -
  let ?s3 = "s @ [ListObj [], ListObj [], ListObj []]"
  let ?fr = "\<lparr>v_qubit_hamiltonian = qh, v_indices = Suc (Suc (length s)),
              v_pool_generators = length s, v_pool_tuples = Suc (length s)\<rparr>"
  from assms have H: "qh < length s" "s ! qh = OperatorObj H"
    by (auto simp: deref_def split: if_splits)
  obtain r s' where L: "store_get_pool_loop n ?fr (length H) (length H) ?s3 = (r, s')"
    by (cases "store_get_pool_loop n ?fr (length H) (length H) ?s3")
  note a = store_get_pool_eval [OF H L]
  have "v_qubit_hamiltonian ?fr < length s" "s ! v_qubit_hamiltonian ?fr = OperatorObj H"
    using H by simp_all
  from store_get_pool_loop_sim [OF pool_rel_start this le_refl, of n]
  have sim: "(case get_pool_loop n (init_state H) (terms H) of
            Inl e \<Rightarrow> r = Inl e
          | Inr st' \<Rightarrow> r = Inr () \<and> pool_rel s ?fr s' st')"
    unfolding L fst_conv snd_conv by simp
  have g: "get_pool H n = (case get_pool_loop n (init_state H) (terms H) of
        Inl e \<Rightarrow> Inl e | Inr st \<Rightarrow> Inr (pool_generators st))"
    by (simp add: get_pool_def get_pool_run_alt)
  show ?thesis
  proof (cases "get_pool_loop n (init_state H) (terms H)")
    case (Inl e)
    with sim have "r = Inl e" by simp
    with a have "store_get_pool qh n s = (Inl e, s')" by simp
    with Inl g show ?thesis by (simp add: returned_pool_def)
  next
    case (Inr st')
    with sim have f: "r = Inr ()" and p: "pool_rel s ?fr s' st'" by simp_all
    from f a have o: "store_get_pool qh n s = (Inr (length s), s')" by simp
    from p obtain gs where
      gs: "length s < length s'" "s' ! length s = ListObj (map Ref gs)"
        "list_all2 (\<lambda>g op. g < length s' \<and>
             (length s \<le> g \<and> g \<noteq> Suc (Suc (length s)) \<and> g \<noteq> length s \<and> g \<noteq> Suc (length s)) \<and>
             s' ! g = OperatorObj op) gs (pool_generators st')"
      unfolding pool_rel_def by auto
    from those_operator_at [OF gs(3)] gs(1,2)
    have "returned_pool (Inr (length s), s') = Some (Inr (pool_generators st'))"
      by (simp add: returned_pool_def deref_def)
    with o Inr g show ?thesis by simp
  qed
qed

section \<open>Circuits built by the ansatz\<close>

lemma is_variational_Gate [simp]: "is_variational (Gate nm tgt ctrl par var) = var"
  by (simp add: Gate_def)

lemma gates_add_gate [simp]: "gates (add_gate c g) = gates c @ [g]"
  by (simp add: add_gate_def)

lemma gates_foldl_add_gate: "gates (foldl add_gate c gs) = gates c @ gs"
  by (induction gs arbitrary: c) simp_all

lemma wf_Circuit: "wf_circuit Circuit"
  by (simp add: wf_circuit_def Circuit_def)

lemma wf_add_gate: "wf_circuit c \<Longrightarrow> wf_circuit (add_gate c g)"
proof -
  assume w: "wf_circuit c"
  have "filter (\<lambda>i. is_variational ((gates c @ [g]) ! i)) [0..<length (gates c)]
      = filter (\<lambda>i. is_variational (gates c ! i)) [0..<length (gates c)]"
    by (rule filter_cong [OF refl]) (simp add: nth_append)
  with w show ?thesis
    by (simp add: wf_circuit_def add_gate_def)
qed

lemma wf_foldl_add_gate: "wf_circuit c \<Longrightarrow> wf_circuit (foldl add_gate c gs)"
  by (induction gs arbitrary: c) (simp_all add: wf_add_gate)

lemma wf_circuit_add: "wf_circuit c1 \<Longrightarrow> wf_circuit (circuit_add c1 c2)"
  by (simp add: circuit_add_def wf_foldl_add_gate)

lemma gates_circuit_add: "gates (circuit_add c1 c2) = gates c1 @ gates c2"
  by (simp add: circuit_add_def gates_foldl_add_gate)

lemma length_filter_nth:
  "length (filter (\<lambda>i. P (xs ! i)) [0..<length xs]) = length (filter P xs)"
proof (induction xs rule: rev_induct)
  case Nil
  show ?case by simp
next
  case (snoc x xs)
  have "filter (\<lambda>i. P ((xs @ [x]) ! i)) [0..<length xs] = filter (\<lambda>i. P (xs ! i)) [0..<length xs]"
    by (rule filter_cong [OF refl]) (simp add: nth_append)
  with snoc show ?case by simp
qed

lemma wf_circuit_count:
  "wf_circuit c \<Longrightarrow> length (variational_gates c) = length (filter is_variational (gates c))"
  by (simp add: wf_circuit_def length_filter_nth)

lemma Euler_aux:
  "wf_circuit c \<Longrightarrow>
   wf_circuit (foldl (\<lambda>c tgt.
         add_gate
           (add_gate
              (add_gate c (Gate ''RZ'' tgt None (Some 0) True))
              (Gate ''RX'' tgt None (Some 0) True))
           (Gate ''RZ'' tgt None (Some 0) True)) c ts) \<and>
   length (filter is_variational (gates (foldl (\<lambda>c tgt.
         add_gate
           (add_gate
              (add_gate c (Gate ''RZ'' tgt None (Some 0) True))
              (Gate ''RX'' tgt None (Some 0) True))
           (Gate ''RZ'' tgt None (Some 0) True)) c ts)))
     = length (filter is_variational (gates c)) + 3 * length ts"
  by (induction ts arbitrary: c) (simp_all add: wf_add_gate)

lemma wf_EulerCircuit: "wf_circuit (EulerCircuit n)"
  using Euler_aux [OF wf_Circuit, of "[0..<n]"] by (simp add: EulerCircuit_def)

lemma count_EulerCircuit: "length (filter is_variational (gates (EulerCircuit n))) = 3 * n"
  using Euler_aux [OF wf_Circuit, of "[0..<n]"] by (simp add: EulerCircuit_def Circuit_def)

lemma Entangler_aux:
  "filter is_variational (gates (foldl (\<lambda>c ii. add_gate c (Gate nm (f ii) (g ii) None False)) c xs))
   = filter is_variational (gates c)"
  by (induction xs arbitrary: c) simp_all

lemma count_EntanglerCircuit:
  "filter is_variational (gates (EntanglerCircuit n)) = []"
  unfolding EntanglerCircuit_def Entangler_aux by (simp add: Circuit_def)

lemma HEA_aux:
  "wf_circuit c \<Longrightarrow>
   wf_circuit (foldl (\<lambda>c ii. circuit_add (circuit_add c (EntanglerCircuit n)) (EulerCircuit n)) c xs) \<and>
   length (filter is_variational (gates
      (foldl (\<lambda>c ii. circuit_add (circuit_add c (EntanglerCircuit n)) (EulerCircuit n)) c xs)))
    = length (filter is_variational (gates c)) + 3 * n * length xs"
proof (induction xs arbitrary: c)
  case Nil
  then show ?case by simp
next
  case (Cons x xs)
  let ?c1 = "circuit_add (circuit_add c (EntanglerCircuit n)) (EulerCircuit n)"
  from Cons.prems have w: "wf_circuit ?c1" by (simp add: wf_circuit_add)
  have k: "length (filter is_variational (gates ?c1)) = length (filter is_variational (gates c)) + 3 * n"
    by (simp add: gates_circuit_add count_EulerCircuit count_EntanglerCircuit)
  from Cons.IH [OF w] k show ?case by (simp add: algebra_simps)
qed

lemma wf_HEACircuit: "wf_circuit (HEACircuit n l)"
  using HEA_aux [OF wf_EulerCircuit, of n n "[0..<l]"] by (simp add: HEACircuit_def)

lemma count_HEACircuit:
  "length (filter is_variational (gates (HEACircuit n l))) = n * 3 * (l + 1)"
  using HEA_aux [OF wf_EulerCircuit, of n n "[0..<l]"]
  by (simp add: HEACircuit_def count_EulerCircuit algebra_simps)

lemma non_variational_wf: "non_variational c \<Longrightarrow> wf_circuit c"
  by (simp add: non_variational_def wf_circuit_def list_all_length filter_empty_conv)

lemma non_variational_count: "non_variational c \<Longrightarrow> filter is_variational (gates c) = []"
  by (simp add: non_variational_def list_all_iff filter_empty_conv)

lemma set_var_params_fields:
  "set_var_params array_eq rng self vp = (r, self') \<Longrightarrow>
   n_qubits self' = n_qubits self \<and> n_layers self' = n_layers self \<and>
   n_var_params self' = n_var_params self \<and> n_spinorbitals self' = n_spinorbitals self \<and>
   n_electrons self' = n_electrons self \<and> mapping self' = mapping self \<and>
   circuit self' = circuit self"
  by (auto simp: set_var_params_def Let_def split: if_splits sum.splits bool.splits)

lemma build_circuit_Inr:
  assumes b: "build_circuit array_eq rng grc self vp = (Inr c, self')"
    and ref: "non_variational (grc (n_spinorbitals self) (n_electrons self) (mapping self))"
  shows "wf_circuit c" and "circuit self' = Some c"
    and "length (variational_gates c) = n_qubits self * 3 * (n_layers self + 1)"
    and "n_var_params self' = n_var_params self"
proof -
  obtain r self1 where s: "set_var_params array_eq rng self vp = (r, self1)"
    by (cases "set_var_params array_eq rng self vp")
  note f = set_var_params_fields [OF s]
  from b s obtain v where r: "r = Inr v" by (cases r) (simp_all add: build_circuit_def)
  let ?ref = "grc (n_spinorbitals self) (n_electrons self) (mapping self)"
  let ?hea = "HEACircuit (n_qubits self) (n_layers self)"
  let ?built = "if circuit_size ?ref \<noteq> 0 then circuit_add ?ref ?hea else ?hea"
  from b s r f have c: "c = ?built" and s': "self' = self1\<lparr>var_params := v, circuit := Some ?built\<rparr>"
    by (auto simp: build_circuit_def Let_def prepare_reference_state_def split: if_splits)
  from c non_variational_wf [OF ref] show w: "wf_circuit c"
    by (simp add: wf_circuit_add wf_HEACircuit)
  from c s' show "circuit self' = Some c" by simp
  from s' f show "n_var_params self' = n_var_params self" by simp
  have "length (filter is_variational (gates c)) = n_qubits self * 3 * (n_layers self + 1)"
    unfolding c
    by (simp add: gates_circuit_add non_variational_count [OF ref] count_HEACircuit)
  with wf_circuit_count [OF w] show "length (variational_gates c) = n_qubits self * 3 * (n_layers self + 1)"
    by simp
qed

lemma assign_step_simps [simp]:
  "variational_gates (assign_step vp c i) = variational_gates c"
  "length (gates (assign_step vp c i)) = length (gates c)"
  by (simp_all add: assign_step_def set_parameter_def)

lemma foldl_assign_simps [simp]:
  "variational_gates (foldl (assign_step vp) c xs) = variational_gates c"
  "length (gates (foldl (assign_step vp) c xs)) = length (gates c)"
  by (induction xs arbitrary: c) simp_all

lemma update_loop_Inr:
  "circuit self = Some c \<Longrightarrow>
   \<forall>i \<in> set xs. i < length vp \<and> i < length (variational_gates c) \<Longrightarrow>
   update_var_params_loop self vp xs = (Inr (), self\<lparr>circuit := Some (foldl (assign_step vp) c xs)\<rparr>)"
proof (induction xs arbitrary: self c)
  case Nil
  then show ?case by simp
next
  case (Cons i xs)
  let ?c1 = "assign_step vp c i"
  let ?self1 = "self\<lparr>circuit := Some ?c1\<rparr>"
  have "update_var_params_loop ?self1 vp xs
      = (Inr (), ?self1\<lparr>circuit := Some (foldl (assign_step vp) ?c1 xs)\<rparr>)"
    using Cons.prems(2) by (intro Cons.IH) simp_all
  moreover have "set_parameter c (variational_gates c ! i) (vp ! i) = ?c1"
    by (simp add: assign_step_def)
  ultimately show ?case using Cons.prems
    by simp
qed

lemma wf_circuit_positions:
  assumes "wf_circuit c"
  shows "distinct (variational_gates c)"
    and "\<And>k. k < length (variational_gates c) \<Longrightarrow> variational_gates c ! k < length (gates c)"
proof -
  from assms have e: "variational_gates c = filter (\<lambda>i. is_variational (gates c ! i)) [0..<length (gates c)]"
    by (simp add: wf_circuit_def)
  show "distinct (variational_gates c)" unfolding e by simp
  fix k assume "k < length (variational_gates c)"
  then have "variational_gates c ! k \<in> set (variational_gates c)" by simp
  then have "variational_gates c ! k \<in> set (filter (\<lambda>i. is_variational (gates c ! i)) [0..<length (gates c)])"
    using e by simp
  then show "variational_gates c ! k < length (gates c)" by simp
qed

lemma foldl_assign_nth:
  assumes w: "wf_circuit c"
  shows "distinct xs \<Longrightarrow> \<forall>i \<in> set xs. i < length (variational_gates c) \<Longrightarrow>
     (\<forall>k \<in> set xs. parameter (gates (foldl (assign_step vp) c xs) ! (variational_gates c ! k)) = Some (vp ! k)) \<and>
     (\<forall>j. j \<notin> (\<lambda>k. variational_gates c ! k) ` set xs \<longrightarrow>
          gates (foldl (assign_step vp) c xs) ! j = gates c ! j)"
proof (induction xs rule: rev_induct)
  case Nil
  show ?case by simp
next
  case (snoc i xs)
  let ?c1 = "foldl (assign_step vp) c xs"
  let ?vg = "variational_gates c"
  from snoc.prems have d: "distinct xs" and ni: "i \<notin> set xs"
    and r: "\<forall>i \<in> set xs. i < length ?vg" and i: "i < length ?vg" by simp_all
  note IH = snoc.IH [OF d r]
  have pos: "?vg ! i < length (gates ?c1)"
    using wf_circuit_positions(2) [OF w i] by simp
  have g: "gates (foldl (assign_step vp) c (xs @ [i])) =
      (gates ?c1)[?vg ! i := (gates ?c1 ! (?vg ! i))\<lparr>parameter := Some (vp ! i)\<rparr>]"
    by (simp add: assign_step_def set_parameter_def)
  have ne: "\<And>k. k \<in> set xs \<Longrightarrow> ?vg ! k \<noteq> ?vg ! i"
  proof -
    fix k assume k: "k \<in> set xs"
    with ni have "k \<noteq> i" by auto
    moreover from k r have "k < length ?vg" by simp
    ultimately show "?vg ! k \<noteq> ?vg ! i"
      using wf_circuit_positions(1) [OF w] i by (simp add: nth_eq_iff_index_eq)
  qed
  show ?case
  proof (intro conjI ballI allI impI)
    fix k assume "k \<in> set (xs @ [i])"
    then consider "k = i" | "k \<in> set xs" by auto
    then show "parameter (gates (foldl (assign_step vp) c (xs @ [i])) ! (?vg ! k)) = Some (vp ! k)"
    proof cases
      case 1
      with pos show ?thesis unfolding g by simp
    next
      case 2
      with ne [OF 2] IH show ?thesis unfolding g by simp
    qed
  next
    fix j assume j: "j \<notin> (\<lambda>k. ?vg ! k) ` set (xs @ [i])"
    then have "j \<noteq> ?vg ! i" and "j \<notin> (\<lambda>k. ?vg ! k) ` set xs" by auto
    with IH show "gates (foldl (assign_step vp) c (xs @ [i])) ! j = gates c ! j"
      unfolding g by simp
  qed
qed

lemma update_var_params_wf:
  assumes c: "circuit self = Some c" and w: "wf_circuit c"
    and n: "length (variational_gates c) = n_var_params self" and l: "n_var_params self \<le> length ps"
  shows "\<exists>c'. update_var_params self ps = (Inr (), self\<lparr>circuit := Some c'\<rparr>) \<and>
           variational_gates c' = variational_gates c \<and>
           variational_parameters c' = map Some (take (n_var_params self) ps) \<and>
           length (gates c') = length (gates c) \<and>
           (\<forall>j < length (gates c). \<not> is_variational (gates c ! j) \<longrightarrow> gates c' ! j = gates c ! j)"
proof -
  let ?xs = "[0..<n_var_params self]"
  let ?c' = "foldl (assign_step ps) c ?xs"
  have r: "\<forall>i \<in> set ?xs. i < length ps \<and> i < length (variational_gates c)"
    using n l by simp
  from update_loop_Inr [OF c r]
  have u: "update_var_params self ps = (Inr (), self\<lparr>circuit := Some ?c'\<rparr>)"
    by (simp add: update_var_params_def)
  have "distinct ?xs" "\<forall>i \<in> set ?xs. i < length (variational_gates c)" using n by simp_all
  from foldl_assign_nth [OF w this, of ps]
  have a: "\<And>k. k < n_var_params self \<Longrightarrow> parameter (gates ?c' ! (variational_gates c ! k)) = Some (ps ! k)"
    and b: "\<And>j. j \<notin> (\<lambda>k. variational_gates c ! k) ` set ?xs \<Longrightarrow> gates ?c' ! j = gates c ! j"
    by simp_all
  have vp: "variational_parameters ?c' = map Some (take (n_var_params self) ps)"
  proof (rule nth_equalityI)
    show "length (variational_parameters ?c') = length (map Some (take (n_var_params self) ps))"
      using n l by (simp add: variational_parameters_def)
  next
    fix k assume "k < length (variational_parameters ?c')"
    then have k: "k < n_var_params self" using n by (simp add: variational_parameters_def)
    with a [OF k] n l show "variational_parameters ?c' ! k = map Some (take (n_var_params self) ps) ! k"
      by (simp add: variational_parameters_def)
  qed
  have nv: "\<forall>j < length (gates c). \<not> is_variational (gates c ! j) \<longrightarrow> gates ?c' ! j = gates c ! j"
  proof (intro allI impI)
    fix j assume j: "j < length (gates c)" "\<not> is_variational (gates c ! j)"
    have "j \<notin> set (variational_gates c)"
    proof
      assume "j \<in> set (variational_gates c)"
      with w have "j \<in> set (filter (\<lambda>i. is_variational (gates c ! i)) [0..<length (gates c)])"
        by (simp add: wf_circuit_def)
      with j(2) show False by simp
    qed
    then have "j \<notin> (\<lambda>k. variational_gates c ! k) ` set ?xs"
      using n by (auto simp: in_set_conv_nth)
    from b [OF this] show "gates ?c' ! j = gates c ! j" .
  qed
  from u vp nv show ?thesis by (intro exI [of _ ?c']) simp
qed


section \<open>The cycles of the ADAPT loop\<close>

lemma best_of_props:
  "best_of b xs = (i, m) \<Longrightarrow>
   (i, m) \<in> set (b # xs) \<and> (\<forall>(j, g) \<in> set (b # xs). g \<le> m)"
proof (induction b xs rule: best_of.induct)
  case (1 b)
  then show ?case by (cases b) auto
next
  case (2 i0 m0 j g rest)
  show ?case
  proof (cases "m0 < g")
    case True
    with 2 have "(i, m) \<in> set ((j, g) # rest) \<and> (\<forall>(j, g) \<in> set ((j, g) # rest). g \<le> m)"
      by simp
    with True show ?thesis by auto
  next
    case False
    with 2 have "(i, m) \<in> set ((i0, m0) # rest) \<and> (\<forall>(j, g) \<in> set ((i0, m0) # rest). g \<le> m)"
      by simp
    with False show ?thesis by auto
  qed
qed

lemma rank_pool_None: "rank_pool gs = None \<longleftrightarrow> gs = []"
  by (cases gs) (simp_all add: rank_pool_def)

lemma rank_pool_Some:
  assumes "rank_pool gs = Some (i, m)"
  shows "i < length gs \<and> m = \<bar>gs ! i\<bar> \<and> (\<forall>j < length gs. \<bar>gs ! j\<bar> \<le> m)"
proof -
  let ?e = "enumerate 0 (map abs gs)"
  from assms obtain b xs where e: "?e = b # xs" and bo: "best_of b xs = (i, m)"
    by (auto simp: rank_pool_def split: list.splits)
  from best_of_props [OF bo] have mem: "(i, m) \<in> set ?e" and mx: "\<forall>(j, g) \<in> set ?e. g \<le> m"
    unfolding e by blast+
  from mem have i: "i < length gs" and m: "m = \<bar>gs ! i\<bar>"
    by (auto simp: in_set_enumerate_eq)
  have "\<forall>j < length gs. \<bar>gs ! j\<bar> \<le> m"
  proof (intro allI impI)
    fix j assume "j < length gs"
    then have "(j, \<bar>gs ! j\<bar>) \<in> set ?e" by (simp add: in_set_enumerate_eq)
    with mx show "\<bar>gs ! j\<bar> \<le> m" by blast
  qed
  with i m show ?thesis by simp
qed

lemma length_reassign [simp]: "length (reassign anz params) = length anz"
  by (simp add: reassign_def)

lemma map_fst_reassign [simp]: "map fst (reassign anz params) = map fst anz"
  by (rule nth_equalityI) (simp_all add: reassign_def nth_enumerate_eq split_def)

lemma adapt_cycle_spec:
  assumes "adapt_cycle B tolerance limit st = (status, st')"
  shows "cycle_spec B tolerance limit st status st'"
proof (cases "rank_pool (map (gradient B (working_hamiltonian st) (ansatz st)) (operator_pool st))")
  case None
  then have "operator_pool st = []" by (simp add: rank_pool_None)
  with None assms show ?thesis by (auto simp: adapt_cycle_def cycle_spec_def)
next
  case (Some w)
  obtain i m where w: "w = (i, m)" by (cases w)
  let ?gs = "map (gradient B (working_hamiltonian st) (ansatz st)) (operator_pool st)"
  note r = rank_pool_Some [OF Some [unfolded w]]
  from r have i0: "i < length ?gs" and m0: "m = \<bar>?gs ! i\<bar>"
    and mx0: "\<forall>j < length ?gs. \<bar>?gs ! j\<bar> \<le> m" by blast+
  from i0 have i: "i < length (operator_pool st)" by simp
  from m0 i have m: "m = \<bar>gradient B (working_hamiltonian st) (ansatz st) (operator_pool st ! i)\<bar>"
    by simp
  have mx: "\<forall>j < length (operator_pool st).
               \<bar>gradient B (working_hamiltonian st) (ansatz st) (operator_pool st ! j)\<bar> \<le> m"
  proof (intro allI impI)
    fix j assume j: "j < length (operator_pool st)"
    with mx0 have "\<bar>?gs ! j\<bar> \<le> m" by simp
    with j show "\<bar>gradient B (working_hamiltonian st) (ansatz st) (operator_pool st ! j)\<bar> \<le> m"
      by simp
  qed
  have all: "list_all (\<lambda>g. \<bar>gradient B (working_hamiltonian st) (ansatz st) g\<bar> < tolerance)
            (operator_pool st) \<longleftrightarrow> m < tolerance"
  proof
    assume "list_all (\<lambda>g. \<bar>gradient B (working_hamiltonian st) (ansatz st) g\<bar> < tolerance) (operator_pool st)"
    with i m show "m < tolerance" by (simp add: list_all_length)
  next
    assume "m < tolerance"
    with mx show "list_all (\<lambda>g. \<bar>gradient B (working_hamiltonian st) (ansatz st) g\<bar> < tolerance) (operator_pool st)"
      by (fastforce simp: list_all_length)
  qed
  show ?thesis
  proof (cases "m < tolerance")
    case True
    with Some w assms all show ?thesis by (auto simp: adapt_cycle_def cycle_spec_def)
  next
    case nt: False
    show ?thesis
    proof (cases "limit \<le> length (ansatz st)")
      case True
      with nt Some w assms all show ?thesis by (auto simp: adapt_cycle_def cycle_spec_def)
    next
      case False
      obtain ps e where o: "optimize B (working_hamiltonian st) (ansatz st @ [(operator_pool st ! i, 0)]) = (ps, e)"
        by (cases "optimize B (working_hamiltonian st) (ansatz st @ [(operator_pool st ! i, 0)])")
      from False nt Some w assms o have s: "status = CONTINUE"
        and st': "st' = st\<lparr>ansatz := reassign (ansatz st @ [(operator_pool st ! i, 0)]) ps,
                    energy_history := energy_history st @ [e]\<rparr>"
        by (simp_all add: adapt_cycle_def Let_def)
      from False i show ?thesis
        unfolding cycle_spec_def s st' by auto
    qed
  qed
qed

lemma adapt_cycle_continue:
  assumes "fst (adapt_cycle B tolerance limit st) = CONTINUE"
  shows "\<exists>w m. rank_pool (map (gradient B (working_hamiltonian st) (ansatz st)) (operator_pool st)) = Some (w, m) \<and>
           \<not> m < tolerance \<and> length (ansatz st) < limit \<and>
           cycle_state B tolerance limit st =
             st\<lparr>ansatz := reassign (ansatz st @ [(operator_pool st ! w, 0)])
                   (fst (optimize B (working_hamiltonian st) (ansatz st @ [(operator_pool st ! w, 0)]))),
                energy_history := energy_history st @
                   [snd (optimize B (working_hamiltonian st) (ansatz st @ [(operator_pool st ! w, 0)]))]\<rparr>"
  using assms
  by (auto simp: adapt_cycle_def cycle_state_def Let_def split_def
      split: option.splits if_splits)

lemma adapt_cycle_stop:
  assumes "adapt_cycle B tolerance limit st = (status, st')" "status \<noteq> CONTINUE"
  shows "status = (case rank_pool (map (gradient B (working_hamiltonian st) (ansatz st)) (operator_pool st)) of
                     None \<Rightarrow> CONVERGED
                   | Some (w, m) \<Rightarrow> if m < tolerance then CONVERGED else EXHAUSTED)"
  using assms
  by (auto simp: adapt_cycle_def Let_def split_def split: option.splits if_splits)

lemma adapt_loop_unfold:
  "adapt_loop B tolerance limit st =
     (if fst (adapt_cycle B tolerance limit st) = CONTINUE
      then adapt_loop B tolerance limit (cycle_state B tolerance limit st)
      else adapt_cycle B tolerance limit st)"
  by (subst adapt_loop.simps)
     (auto simp: cycle_state_def split: prod.splits termination_state.splits)

lemma adapt_loop_run:
  "adapt_loop B tolerance limit s = (status, st) \<Longrightarrow>
   \<exists>k. st = (cycle_state B tolerance limit ^^ k) s \<and>
       (\<forall>j < k. fst (adapt_cycle B tolerance limit ((cycle_state B tolerance limit ^^ j) s)) = CONTINUE) \<and>
       adapt_cycle B tolerance limit st = (status, st) \<and> status \<noteq> CONTINUE \<and>
       length (ansatz st) = length (ansatz s) + k \<and>
       length (energy_history st) = length (energy_history s) + k \<and>
       (k = 0 \<or> length (ansatz st) \<le> limit)"
proof (induction B tolerance limit s rule: adapt_loop.induct)
  case (1 B tolerance limit s)
  obtain r s1 where c: "adapt_cycle B tolerance limit s = (r, s1)"
    by (cases "adapt_cycle B tolerance limit s")
  note sp = adapt_cycle_spec [OF c]
  show ?case
  proof (cases "r = CONTINUE")
    case False
    with "1.prems" c have e: "status = r" "st = s1"
      by (simp_all add: adapt_loop_unfold)
    from False sp have "s1 = s" by (cases r) (simp_all add: cycle_spec_def)
    with e c False show ?thesis by (intro exI [of _ 0]) simp
  next
    case True
    with "1.prems" c have l: "adapt_loop B tolerance limit s1 = (status, st)"
      by (simp add: adapt_loop_unfold cycle_state_def)
    from c True have "(r, s1) = adapt_cycle B tolerance limit s" "r = CONTINUE" by simp_all
    from "1.IH" [OF this l] obtain k where k:
      "st = (cycle_state B tolerance limit ^^ k) s1"
      "\<forall>j < k. fst (adapt_cycle B tolerance limit ((cycle_state B tolerance limit ^^ j) s1)) = CONTINUE"
      "adapt_cycle B tolerance limit st = (status, st)" "status \<noteq> CONTINUE"
      "length (ansatz st) = length (ansatz s1) + k"
      "length (energy_history st) = length (energy_history s1) + k"
      "k = 0 \<or> length (ansatz st) \<le> limit"
      by blast
    have s1: "s1 = cycle_state B tolerance limit s" using c by (simp add: cycle_state_def)
    from sp True have g: "length (ansatz s) < limit"
      "length (energy_history s1) = Suc (length (energy_history s))"
      and "\<exists>winner < length (operator_pool s).
             map fst (ansatz s1) = map fst (ansatz s) @ [operator_pool s ! winner]"
      by (simp_all add: cycle_spec_def)
    then obtain winner where "map fst (ansatz s1) = map fst (ansatz s) @ [operator_pool s ! winner]"
      by blast
    then have "length (map fst (ansatz s1)) = length (map fst (ansatz s) @ [operator_pool s ! winner])"
      by (rule arg_cong)
    then have la: "length (ansatz s1) = Suc (length (ansatz s))" by simp
    have 1: "st = (cycle_state B tolerance limit ^^ Suc k) s"
      using k(1) s1 by (simp add: funpow_swap1)
    have 2: "\<forall>j < Suc k. fst (adapt_cycle B tolerance limit ((cycle_state B tolerance limit ^^ j) s)) = CONTINUE"
    proof (intro allI impI)
      fix j assume j: "j < Suc k"
      show "fst (adapt_cycle B tolerance limit ((cycle_state B tolerance limit ^^ j) s)) = CONTINUE"
      proof (cases j)
        case 0
        with c True show ?thesis by simp
      next
        case (Suc i)
        with j k(2) have "fst (adapt_cycle B tolerance limit ((cycle_state B tolerance limit ^^ i) s1)) = CONTINUE"
          by simp
        with Suc s1 show ?thesis by (simp add: funpow_swap1)
      qed
    qed
    have 3: "length (ansatz st) \<le> limit"
      using k(5,7) la g(1) by auto
    from 1 2 3 k(3,4,5,6) la g(2) show ?thesis
      by (intro exI [of _ "Suc k"]) simp
  qed
qed

lemma cycle_state_fixed:
  "working_hamiltonian (cycle_state B tolerance limit st) = working_hamiltonian st \<and>
   operator_pool (cycle_state B tolerance limit st) = operator_pool st"
proof -
  obtain r s1 where c: "adapt_cycle B tolerance limit st = (r, s1)"
    by (cases "adapt_cycle B tolerance limit st")
  from adapt_cycle_spec [OF c] have "working_hamiltonian s1 = working_hamiltonian st \<and>
      operator_pool s1 = operator_pool st"
    by (cases r) (simp_all add: cycle_spec_def)
  with c show ?thesis by (simp add: cycle_state_def)
qed

lemma funpow_cycle_state_fixed:
  "working_hamiltonian ((cycle_state B tolerance limit ^^ j) st) = working_hamiltonian st \<and>
   operator_pool ((cycle_state B tolerance limit ^^ j) st) = operator_pool st"
  by (induction j) (simp_all add: cycle_state_fixed)

lemma adapt_simulate_run:
  "\<exists>k. snd (adapt_simulate B opts) =
         (cycle_state B (tol opts) (max_cycles opts) ^^ k) (adapt_init B opts)"
proof -
  obtain status st where a: "adapt_simulate B opts = (status, st)"
    by (cases "adapt_simulate B opts")
  then have "adapt_loop B (tol opts) (max_cycles opts) (adapt_init B opts) = (status, st)"
    by (simp add: adapt_simulate_def)
  from adapt_loop_run [OF this] a show ?thesis by auto
qed

section \<open>Claims about the operator pool\<close>

text \<open>
  Claim C1. For a well-formed Hamiltonian on which \<open>get_pool\<close> returns, every generator
  of the pool comes from a term with an even number of \<open>Y\<close> factors and at least one
  \<open>X\<close> or \<open>Y\<close> factor, and a pass of the loop body over a term of the Hamiltonian
  extends \<open>pool_generators\<close> only if the term has an even number of \<open>Y\<close> factors and
  at least one \<open>X\<close> or \<open>Y\<close> factor: a term with an odd number of \<open>Y\<close> factors
  never produces a generator, whatever the state it is met in.
\<close>

theorem get_pool_even_y_only:
  assumes "wf_hamiltonian H" "get_pool H n = Inr pool"
  shows "(\<forall>g \<in> set pool. \<exists>t \<in> set (terms H).
            even (y_count t) \<and> has_xy t \<and> g = QubitOperator (flip_first_xy t) \<i>) \<and>
         (\<forall>t \<in> set (terms H). \<forall>st st'.
            get_pool_body n st t = Inr st' \<and> pool_generators st' \<noteq> pool_generators st
            \<longrightarrow> even (y_count t) \<and> has_xy t)"
proof (rule conjI)
  show "\<forall>g \<in> set pool. \<exists>t \<in> set (terms H).
            even (y_count t) \<and> has_xy t \<and> g = QubitOperator (flip_first_xy t) \<i>"
  proof
    fix g assume "g \<in> set pool"
    with get_pool_wf(1) [OF assms] generator_source [of g n "init_state H" "terms H"]
    show "\<exists>t \<in> set (terms H). even (y_count t) \<and> has_xy t \<and> g = QubitOperator (flip_first_xy t) \<i>"
      by (simp add: init_state_def)
  qed
next
  show "\<forall>t \<in> set (terms H). \<forall>st st'.
            get_pool_body n st t = Inr st' \<and> pool_generators st' \<noteq> pool_generators st
            \<longrightarrow> even (y_count t) \<and> has_xy t"
  proof (intro ballI allI impI)
    fix t st st'
    assume t: "t \<in> set (terms H)"
      and b: "get_pool_body n st t = Inr st' \<and> pool_generators st' \<noteq> pool_generators st"
    from t assms(1) have "wf_term t" by (simp add: wf_hamiltonian_def list_all_iff)
    from get_pool_body_Inr [OF this] b have "pool_generators (pool_step n st t) \<noteq> pool_generators st"
      by blast
    then show "even (y_count t) \<and> has_xy t"
      by (simp add: pool_step_generators split: if_splits)
  qed
qed

theorem get_pool_even_y_only_witness:
  "wf_hamiltonian [([(0, X), (1, Y)], 1), ([(0, Y), (1, Y)], 1), ([(0, Z), (1, Z)], 1)] \<and>
   get_pool [([(0, X), (1, Y)], 1), ([(0, Y), (1, Y)], 1), ([(0, Z), (1, Z)], 1)] 2
     = Inr [[([(0, X), (1, Y)], \<i>)]] \<and>
   (\<exists>t \<in> set (terms [([(0, X), (1, Y)], 1), ([(0, Y), (1, Y)], 1), ([(0, Z), (1, Z)], 1)]).
      even (y_count t) \<and> has_xy t \<and> [([(0, X), (1, Y)], \<i>)] = QubitOperator (flip_first_xy t) \<i>) \<and>
   get_pool_body 2 (init_state []) [(0, Y), (1, Y)] =
     Inr \<lparr>qubit_hamiltonian = [], indices = [[True, True]],
          pool_generators = [[([(0, X), (1, Y)], \<i>)]], pool_tuples = [[(0, X), (1, Y)]]\<rparr> \<and>
   even (y_count [(0, Y), (1, Y)]) \<and> has_xy [(0, Y), (1, Y)]"
proof -
  let ?H = "[([(0, X), (1, Y)], 1), ([(0, Y), (1, Y)], 1), ([(0, Z), (1, Z)], 1)] :: qubit_operator"
  let ?st' = "\<lparr>qubit_hamiltonian = [], indices = [[True, True]],
          pool_generators = [[([(0, X), (1, Y)], \<i>)]], pool_tuples = [[(0, X), (1, Y)]]\<rparr>"
  have h1: "wf_hamiltonian ?H"
    by code_simp
  have h2: "get_pool ?H 2 = Inr [[([(0, X), (1, Y)], \<i>)]]"
    by code_simp
  have b: "get_pool_body 2 (init_state []) [(0, Y), (1, Y)] = Inr ?st'"
    by (simp add: get_pool_body_def init_state_def where_gt1_def pauli_reverse_lookup_def
         QubitOperator_def eval_nat_numeral upt_rec [of 0] upt_rec [of "Suc 0"])
  have m: "[(0, Y), (1, Y)] \<in> set (terms ?H)" by (simp add: terms_def)
  have c: "pool_generators ?st' \<noteq> pool_generators (init_state [])" by (simp add: init_state_def)
  note t = get_pool_even_y_only [OF h1 h2]
  from t have 1: "\<exists>t \<in> set (terms ?H).
      even (y_count t) \<and> has_xy t \<and> [([(0, X), (1, Y)], \<i>)] = QubitOperator (flip_first_xy t) \<i>"
    by simp
  from t m b c have 2: "even (y_count [(0, Y), (1, Y)]) \<and> has_xy [(0, Y), (1, Y)]"
    by blast
  from h1 h2 1 b 2 show ?thesis by (intro conjI) simp_all
qed

text \<open>
  Claim C2. For a well-formed Hamiltonian on which \<open>get_pool\<close> returns, every generator
  of the returned pool is the operator with the single coefficient \<open>1.0j\<close> whose term is
  a term of the Hamiltonian with an even number of \<open>Y\<close> factors, without its \<open>Z\<close>
  factors and with its first remaining factor, the one on the lowest qubit carrying an
  \<open>X\<close> or a \<open>Y\<close>, flipped from \<open>X\<close> to \<open>Y\<close> or from \<open>Y\<close> to \<open>X\<close>;
  every other factor is kept. Every term of the Hamiltonian with an even number of
  \<open>Y\<close> factors and an \<open>X\<close> or \<open>Y\<close> factor has such a generator in the pool, its own or
  that of a term with the same \<open>X\<close>/\<open>Y\<close> support. And whenever a pass of the loop body
  over a well-formed term extends \<open>pool_generators\<close>, what it appends is that generator
  of the term.
\<close>

theorem get_pool_generator_shape:
  assumes "wf_hamiltonian H" "get_pool H n = Inr pool"
  shows "(\<forall>g \<in> set pool. \<exists>t \<in> set (terms H). \<exists>i0 a0 rest.
            even (y_count t) \<and>
            filter (\<lambda>f. snd f \<noteq> Z) t = (i0, a0) # rest \<and>
            i0 = Min (xy_support t) \<and> (a0 = X \<or> a0 = Y) \<and>
            g = [((i0, if a0 = X then Y else X) # rest, \<i>)]) \<and>
         (\<forall>t \<in> set (terms H). even (y_count t) \<and> has_xy t \<longrightarrow>
            (\<exists>t' \<in> set (terms H). \<exists>i0 a0 rest.
               xy_support t' = xy_support t \<and> even (y_count t') \<and>
               filter (\<lambda>f. snd f \<noteq> Z) t' = (i0, a0) # rest \<and>
               i0 = Min (xy_support t') \<and> (a0 = X \<or> a0 = Y) \<and>
               [((i0, if a0 = X then Y else X) # rest, \<i>)] \<in> set pool)) \<and>
         (\<forall>t st st'. wf_term t \<and> get_pool_body n st t = Inr st' \<and>
               pool_generators st' \<noteq> pool_generators st \<longrightarrow>
            (\<exists>i0 a0 rest.
               filter (\<lambda>f. snd f \<noteq> Z) t = (i0, a0) # rest \<and>
               i0 = Min (xy_support t) \<and> (a0 = X \<or> a0 = Y) \<and>
               pool_generators st' =
                 pool_generators st @ [[((i0, if a0 = X then Y else X) # rest, \<i>)]]))"
proof (intro conjI)
  note p = get_pool_wf [OF assms]
  have wf: "\<And>t. t \<in> set (terms H) \<Longrightarrow> wf_term t"
    using assms(1) by (simp add: wf_hamiltonian_def list_all_iff)
  show "\<forall>g \<in> set pool. \<exists>t \<in> set (terms H). \<exists>i0 a0 rest.
            even (y_count t) \<and>
            filter (\<lambda>f. snd f \<noteq> Z) t = (i0, a0) # rest \<and>
            i0 = Min (xy_support t) \<and> (a0 = X \<or> a0 = Y) \<and>
            g = [((i0, if a0 = X then Y else X) # rest, \<i>)]"
  proof
    fix g assume "g \<in> set pool"
    with p(1) generator_source [of g n "init_state H" "terms H"]
    obtain t where t: "t \<in> set (terms H)" "even (y_count t)" "has_xy t"
      "g = QubitOperator (flip_first_xy t) \<i>"
      by (auto simp: init_state_def)
    from generator_shape [OF wf [OF t(1)] t(3)] t
    show "\<exists>t \<in> set (terms H). \<exists>i0 a0 rest.
            even (y_count t) \<and>
            filter (\<lambda>f. snd f \<noteq> Z) t = (i0, a0) # rest \<and>
            i0 = Min (xy_support t) \<and> (a0 = X \<or> a0 = Y) \<and>
            g = [((i0, if a0 = X then Y else X) # rest, \<i>)]"
      by metis
  qed
  show "\<forall>t \<in> set (terms H). even (y_count t) \<and> has_xy t \<longrightarrow>
            (\<exists>t' \<in> set (terms H). \<exists>i0 a0 rest.
               xy_support t' = xy_support t \<and> even (y_count t') \<and>
               filter (\<lambda>f. snd f \<noteq> Z) t' = (i0, a0) # rest \<and>
               i0 = Min (xy_support t') \<and> (a0 = X \<or> a0 = Y) \<and>
               [((i0, if a0 = X then Y else X) # rest, \<i>)] \<in> set pool)"
  proof (intro ballI impI)
    fix t assume t: "t \<in> set (terms H)" "even (y_count t) \<and> has_xy t"
    from first_accepted_in_pool [OF p(2) t(1), of H] t(2) p(1)
    obtain t' where t': "t' \<in> set (terms H)" "xy_support t' = xy_support t"
      "even (y_count t')" "has_xy t'" "QubitOperator (flip_first_xy t') \<i> \<in> set pool"
      by auto
    from generator_shape [OF wf [OF t'(1)] t'(4)] obtain i0 a0 rest where
      "filter (\<lambda>f. snd f \<noteq> Z) t' = (i0, a0) # rest" "i0 = Min (xy_support t')" "a0 = X \<or> a0 = Y"
      "QubitOperator (flip_first_xy t') \<i> = [((i0, if a0 = X then Y else X) # rest, \<i>)]"
      by blast
    with t' show "\<exists>t' \<in> set (terms H). \<exists>i0 a0 rest.
               xy_support t' = xy_support t \<and> even (y_count t') \<and>
               filter (\<lambda>f. snd f \<noteq> Z) t' = (i0, a0) # rest \<and>
               i0 = Min (xy_support t') \<and> (a0 = X \<or> a0 = Y) \<and>
               [((i0, if a0 = X then Y else X) # rest, \<i>)] \<in> set pool"
      by metis
  qed
  show "\<forall>t st st'. wf_term t \<and> get_pool_body n st t = Inr st' \<and>
               pool_generators st' \<noteq> pool_generators st \<longrightarrow>
            (\<exists>i0 a0 rest.
               filter (\<lambda>f. snd f \<noteq> Z) t = (i0, a0) # rest \<and>
               i0 = Min (xy_support t) \<and> (a0 = X \<or> a0 = Y) \<and>
               pool_generators st' =
                 pool_generators st @ [[((i0, if a0 = X then Y else X) # rest, \<i>)]])"
  proof (intro allI impI)
    fix t st st'
    assume a: "wf_term t \<and> get_pool_body n st t = Inr st' \<and>
               pool_generators st' \<noteq> pool_generators st"
    then have w: "wf_term t" and b: "get_pool_body n st t = Inr st'"
      and c: "pool_generators st' \<noteq> pool_generators st" by simp_all
    from get_pool_body_Inr [OF w b] have s: "st' = pool_step n st t" .
    from c have ne: "pool_generators (pool_step n st t) \<noteq> pool_generators st"
      unfolding s .
    then have h: "has_xy t"
      by (simp add: pool_step_generators split: if_splits)
    from ne have "pool_generators (pool_step n st t) = pool_generators st @ [QubitOperator (flip_first_xy t) \<i>]"
      by (simp add: pool_step_generators split: if_splits)
    then have g: "pool_generators st' = pool_generators st @ [QubitOperator (flip_first_xy t) \<i>]"
      unfolding s .
    from generator_shape [OF w h] g
    show "\<exists>i0 a0 rest.
               filter (\<lambda>f. snd f \<noteq> Z) t = (i0, a0) # rest \<and>
               i0 = Min (xy_support t) \<and> (a0 = X \<or> a0 = Y) \<and>
               pool_generators st' =
                 pool_generators st @ [[((i0, if a0 = X then Y else X) # rest, \<i>)]]"
      by metis
  qed
qed

theorem get_pool_generator_shape_witness:
  "wf_hamiltonian [([(0, Z), (1, X), (2, Z), (3, X)], 1), ([(0, X), (1, Y)], 1)] \<and>
   get_pool [([(0, Z), (1, X), (2, Z), (3, X)], 1), ([(0, X), (1, Y)], 1)] 4
     = Inr [[([(1, Y), (3, X)], \<i>)]] \<and>
   (\<exists>t \<in> set (terms [([(0, Z), (1, X), (2, Z), (3, X)], 1), ([(0, X), (1, Y)], 1)]).
      \<exists>i0 a0 rest.
        even (y_count t) \<and>
        filter (\<lambda>f. snd f \<noteq> Z) t = (i0, a0) # rest \<and>
        i0 = Min (xy_support t) \<and> (a0 = X \<or> a0 = Y) \<and>
        [([(1, Y), (3, X)], \<i>)] = [((i0, if a0 = X then Y else X) # rest, \<i>)]) \<and>
   (\<exists>t' \<in> set (terms [([(0, Z), (1, X), (2, Z), (3, X)], 1), ([(0, X), (1, Y)], 1)]).
      \<exists>i0 a0 rest.
        xy_support t' = xy_support [(0, Z), (1, X), (2, Z), (3, X)] \<and> even (y_count t') \<and>
        filter (\<lambda>f. snd f \<noteq> Z) t' = (i0, a0) # rest \<and>
        i0 = Min (xy_support t') \<and> (a0 = X \<or> a0 = Y) \<and>
        [((i0, if a0 = X then Y else X) # rest, \<i>)] \<in> set [[([(1, Y), (3, X)], \<i>)]]) \<and>
   get_pool_body 4 (init_state []) [(0, Z), (1, X), (2, Z), (3, X)] =
     Inr \<lparr>qubit_hamiltonian = [], indices = [[False, True, False, True]],
          pool_generators = [[([(1, Y), (3, X)], \<i>)]],
          pool_tuples = [[(1, Y), (3, X)]]\<rparr> \<and>
   (\<exists>i0 a0 rest.
      filter (\<lambda>f. snd f \<noteq> Z) [(0, Z), (1, X), (2, Z), (3, X)] = (i0, a0) # rest \<and>
      i0 = Min (xy_support [(0, Z), (1, X), (2, Z), (3, X)]) \<and> (a0 = X \<or> a0 = Y) \<and>
      [[([(1, Y), (3, X)], \<i>)]] = [] @ [[((i0, if a0 = X then Y else X) # rest, \<i>)]])"
proof -
  let ?t = "[(0, Z), (1, X), (2, Z), (3, X)] :: pauli_term"
  let ?H = "[(?t, 1), ([(0, X), (1, Y)], 1)] :: qubit_operator"
  let ?g = "[([(1, Y), (3, X)], \<i>)] :: qubit_operator"
  let ?st' = "\<lparr>qubit_hamiltonian = [], indices = [[False, True, False, True]],
          pool_generators = [?g], pool_tuples = [[(1, Y), (3, X)]]\<rparr>"
  have h1: "wf_hamiltonian ?H"
    by code_simp
  have h2: "get_pool ?H 4 = Inr [?g]"
    by code_simp
  have w: "wf_term ?t"
    by (simp add: wf_term_def)
  have b: "get_pool_body 4 (init_state []) ?t = Inr ?st'"
    by (simp add: get_pool_body_def init_state_def where_gt1_def pauli_reverse_lookup_def
         QubitOperator_def eval_nat_numeral upt_rec [of 0] upt_rec [of "Suc 0"])
  have c: "pool_generators ?st' \<noteq> pool_generators (init_state [])"
    by (simp add: init_state_def)
  have m: "?t \<in> set (terms ?H)" by (simp add: terms_def)
  have e: "even (y_count ?t) \<and> has_xy ?t"
    by (simp add: y_count_def has_xy_def xy_factors_def is_xy_def)
  note T = get_pool_generator_shape [OF h1 h2]
  from T have 1: "\<exists>t \<in> set (terms ?H). \<exists>i0 a0 rest.
        even (y_count t) \<and>
        filter (\<lambda>f. snd f \<noteq> Z) t = (i0, a0) # rest \<and>
        i0 = Min (xy_support t) \<and> (a0 = X \<or> a0 = Y) \<and>
        ?g = [((i0, if a0 = X then Y else X) # rest, \<i>)]"
    by simp
  from T m e have 2: "\<exists>t' \<in> set (terms ?H). \<exists>i0 a0 rest.
        xy_support t' = xy_support ?t \<and> even (y_count t') \<and>
        filter (\<lambda>f. snd f \<noteq> Z) t' = (i0, a0) # rest \<and>
        i0 = Min (xy_support t') \<and> (a0 = X \<or> a0 = Y) \<and>
        [((i0, if a0 = X then Y else X) # rest, \<i>)] \<in> set [?g]"
    by blast
  from T w b c have "\<exists>i0 a0 rest.
      filter (\<lambda>f. snd f \<noteq> Z) ?t = (i0, a0) # rest \<and>
      i0 = Min (xy_support ?t) \<and> (a0 = X \<or> a0 = Y) \<and>
      pool_generators ?st' = pool_generators (init_state []) @ [[((i0, if a0 = X then Y else X) # rest, \<i>)]]"
    by blast
  then have 3: "\<exists>i0 a0 rest.
      filter (\<lambda>f. snd f \<noteq> Z) ?t = (i0, a0) # rest \<and>
      i0 = Min (xy_support ?t) \<and> (a0 = X \<or> a0 = Y) \<and>
      [?g] = [] @ [[((i0, if a0 = X then Y else X) # rest, \<i>)]]"
    by (simp add: init_state_def)
  from h1 h2 1 2 b 3 show ?thesis by (intro conjI)
qed

text \<open>
  Claim C3. For a well-formed Hamiltonian on which \<open>get_pool\<close> returns, the generators
  of the pool act on pairwise distinct sets of qubits, each of these sets is the
  \<open>X\<close>/\<open>Y\<close> support of a term of the Hamiltonian, and the pool is no longer than the
  number of distinct \<open>X\<close>/\<open>Y\<close> supports among the terms.
\<close>

theorem get_pool_distinct_supports:
  assumes "wf_hamiltonian H" "get_pool H n = Inr pool"
  shows "distinct (map op_support pool) \<and>
         op_support ` set pool \<subseteq> xy_support ` set (terms H) \<and>
         length pool \<le> card (xy_support ` set (terms H))"
proof -
  let ?st = "foldl (pool_step n) (init_state H) (terms H)"
  from get_pool_wf(1) [OF assms] have p: "pool = pool_generators ?st" .
  have "indices (init_state H) = map (action_mask_of_op n) (pool_generators (init_state H))"
    "distinct (indices (init_state H))" "op_support ` set (pool_generators (init_state H)) \<subseteq> {}"
    by (simp_all add: init_state_def)
  then have "indices ?st = map (action_mask_of_op n) (pool_generators ?st) \<and> distinct (indices ?st) \<and>
     op_support ` set (pool_generators ?st) \<subseteq> {} \<union> xy_support ` set (terms H)"
    by (rule pool_invariant)
  then have i: "indices ?st = map (action_mask_of_op n) pool" and d: "distinct (indices ?st)"
    and s: "op_support ` set pool \<subseteq> xy_support ` set (terms H)"
    unfolding p by blast+
  have e: "action_mask_of_op n = (\<lambda>S. map (\<lambda>i. i \<in> S) [0..<n]) \<circ> op_support"
    by (rule ext) (simp add: action_mask_of_op_def)
  from d have "distinct (map ((\<lambda>S. map (\<lambda>i. i \<in> S) [0..<n]) \<circ> op_support) pool)"
    unfolding i e .
  then have dd: "distinct (map op_support pool)" by (rule distinct_map_outer)
  then have "length pool = card (op_support ` set pool)"
    using distinct_card [of "map op_support pool"] by simp
  also have "\<dots> \<le> card (xy_support ` set (terms H))"
    by (rule card_mono [OF _ s]) simp
  finally show ?thesis using dd s by simp
qed

theorem get_pool_distinct_supports_witness:
  "wf_hamiltonian [([(0, X), (1, Y)], 1), ([(0, Y), (1, Y)], 1), ([(0, Z), (1, Z)], 1),
                   ([], 1), ([(0, Z), (1, X)], 2)] \<and>
   get_pool [([(0, X), (1, Y)], 1), ([(0, Y), (1, Y)], 1), ([(0, Z), (1, Z)], 1),
             ([], 1), ([(0, Z), (1, X)], 2)] 2
     = Inr [[([(0, X), (1, Y)], \<i>)], [([(1, Y)], \<i>)]] \<and>
   distinct (map op_support [[([(0, X), (1, Y)], \<i>)], [([(1, Y)], \<i>)]]) \<and>
   length [[([(0::nat, X), (1, Y)], \<i>)], [([(1, Y)], \<i>)]]
     \<le> card (xy_support ` set (terms [([(0, X), (1, Y)], 1), ([(0, Y), (1, Y)], 1),
                   ([(0, Z), (1, Z)], 1), ([], 1), ([(0, Z), (1, X)], 2)]))"
proof -
  have h1: "wf_hamiltonian [([(0, X), (1, Y)], 1), ([(0, Y), (1, Y)], 1), ([(0, Z), (1, Z)], 1),
                   ([], 1), ([(0, Z), (1, X)], 2)]"
    by code_simp
  have h2: "get_pool [([(0, X), (1, Y)], 1), ([(0, Y), (1, Y)], 1), ([(0, Z), (1, Z)], 1),
             ([], 1), ([(0, Z), (1, X)], 2)] 2
     = Inr [[([(0, X), (1, Y)], \<i>)], [([(1, Y)], \<i>)]]"
    by code_simp
  note c = get_pool_distinct_supports [OF h1 h2]
  from h1 h2 c [THEN conjunct1] c [THEN conjunct2, THEN conjunct2] show ?thesis
    by (intro conjI)
qed

text \<open>
  Claim C4. For a well-formed Hamiltonian whose \<open>X\<close> and \<open>Y\<close> factors lie within the
  \<open>n_qubits\<close> qubits, if every term has no \<open>X\<close> or \<open>Y\<close> factor or has an odd
  number of \<open>Y\<close> factors, then \<open>get_pool\<close> returns the empty pool. The scenario of a
  2-qubit Hamiltonian with the single term \<open>X0 Y1\<close> is the instance evaluated after the
  theorem.
\<close>

theorem get_pool_empty:
  assumes "wf_hamiltonian H" "\<forall>t \<in> set (terms H). xy_support t \<subseteq> {..<n}"
    "\<forall>t \<in> set (terms H). \<not> has_xy t \<or> odd (y_count t)"
  shows "get_pool H n = Inr []"
proof -
  from foldl_pool_step_skip [OF assms(3)]
  have "foldl (pool_step n) (init_state H) (terms H) = init_state H" .
  with get_pool_defined [OF assms(1,2)] show ?thesis
    by (simp add: init_state_def)
qed

theorem get_pool_empty_witness:
  "get_pool [([(0, X), (1, Y)], 1)] 2 = Inr []"
proof -
  have h1: "wf_hamiltonian [([(0, X), (1, Y)], 1)]"
    by code_simp
  have h2: "\<forall>t \<in> set (terms [([(0, X), (1, Y)], 1)]). xy_support t \<subseteq> {..<2}"
    by (simp add: terms_def xy_support_def xy_factors_def is_xy_def)
  have h3: "\<forall>t \<in> set (terms [([(0, X), (1, Y)], 1)]). \<not> has_xy t \<or> odd (y_count t)"
    by (simp add: terms_def y_count_def)
  from get_pool_empty [OF h1 h2 h3] show ?thesis .
qed

text \<open>
  Claim C5. \<open>get_pool\<close> is deterministic and pure. On every store of objects, a call
  leaves every object that was there as it was, the Hamiltonian it was handed among them:
  it writes only into the lists, the arrays and the operators it creates itself, and the
  list it returns is one of these. What it returns depends on nothing but the Hamiltonian
  and the qubit count: it is the result of the function \<open>get_pool\<close> of the sections
  above (the same exception, or the list of the same operators in the same order), so a
  second call after the first, or a call on another store that holds the same Hamiltonian,
  returns the same ordered list of generators.
\<close>

theorem get_pool_pure:
  "take (length s) (snd (store_get_pool qh n s)) = s \<and>
   (\<forall>a. fst (store_get_pool qh n s) = Inr a \<longrightarrow> length s \<le> a) \<and>
   (\<forall>H. deref s qh = Some (OperatorObj H) \<longrightarrow>
      deref (snd (store_get_pool qh n s)) qh = Some (OperatorObj H) \<and>
      returned_pool (store_get_pool qh n s) = Some (get_pool H n) \<and>
      returned_pool (store_get_pool qh n (snd (store_get_pool qh n s))) =
        returned_pool (store_get_pool qh n s) \<and>
      (\<forall>s2 q2. deref s2 q2 = Some (OperatorObj H) \<longrightarrow>
         returned_pool (store_get_pool q2 n s2) = returned_pool (store_get_pool qh n s)))"
proof (intro conjI allI impI)
  show f: "take (length s) (snd (store_get_pool qh n s)) = s"
    by (rule store_get_pool_frame)
  {
    fix H assume H: "deref s qh = Some (OperatorObj H)"
    then have q: "qh < length s" "s ! qh = OperatorObj H"
      by (auto simp: deref_def split: if_splits)
    from f have "length s \<le> length (snd (store_get_pool qh n s))"
      by (metis length_take min.cobounded1)
    moreover from f q(1) have "snd (store_get_pool qh n s) ! qh = s ! qh"
      by (metis nth_take)
    ultimately show d: "deref (snd (store_get_pool qh n s)) qh = Some (OperatorObj H)"
      using q by (simp add: deref_def)
    from store_get_pool_sim [OF H] show r: "returned_pool (store_get_pool qh n s) = Some (get_pool H n)"
      by simp
    from store_get_pool_sim [OF d] r
    show "returned_pool (store_get_pool qh n (snd (store_get_pool qh n s))) =
        returned_pool (store_get_pool qh n s)"
      by simp
    fix s2 q2 assume "deref s2 q2 = Some (OperatorObj H)"
    from store_get_pool_sim [OF this] r
    show "returned_pool (store_get_pool q2 n s2) = returned_pool (store_get_pool qh n s)"
      by simp
  }
  fix a assume a: "fst (store_get_pool qh n s) = Inr a"
  show "length s \<le> a"
  proof (cases "\<exists>H. deref s qh = Some (OperatorObj H)")
    case True
    then obtain H where "deref s qh = Some (OperatorObj H)" by blast
    from store_get_pool_sim [OF this] a show ?thesis by simp
  next
    case False
    from store_get_pool_not_operator [OF this] a show ?thesis by simp
  qed
qed

theorem get_pool_pure_witness:
  "deref [OperatorObj [([(0, Y), (1, Y)], 1)]] 0 = Some (OperatorObj [([(0, Y), (1, Y)], 1)]) \<and>
   store_get_pool 0 2 [OperatorObj [([(0, Y), (1, Y)], 1)]] =
     (Inr 1, [OperatorObj [([(0, Y), (1, Y)], 1)], ListObj [Ref 5],
              ListObj [TermTuple [(0, X), (1, Y)]], ListObj [MaskTuple [True, True]],
              ArrayObj [2, 3], OperatorObj [([(0, X), (1, Y)], \<i>)]]) \<and>
   returned_pool (store_get_pool 0 2 [OperatorObj [([(0, Y), (1, Y)], 1)]]) =
     Some (Inr [[([(0, X), (1, Y)], \<i>)]]) \<and>
   deref [ArrayObj [7], OperatorObj [([(0, Y), (1, Y)], 1)]] 1 =
     Some (OperatorObj [([(0, Y), (1, Y)], 1)]) \<and>
   returned_pool (store_get_pool 1 2 [ArrayObj [7], OperatorObj [([(0, Y), (1, Y)], 1)]]) =
     Some (Inr [[([(0, X), (1, Y)], \<i>)]])"
proof -
  let ?H = "[([(0 :: nat, Y), (1, Y)], 1 :: complex)]"
  let ?s = "[OperatorObj ?H]"
  let ?s2 = "[ArrayObj [7], OperatorObj ?H]"
  have d: "deref ?s 0 = Some (OperatorObj ?H)" by (simp add: deref_def)
  have d2: "deref ?s2 1 = Some (OperatorObj ?H)" by (simp add: deref_def)
  have g: "get_pool ?H 2 = Inr [[([(0, X), (1, Y)], \<i>)]]" by code_simp
  have e: "store_get_pool 0 2 ?s =
     (Inr 1, [OperatorObj ?H, ListObj [Ref 5],
              ListObj [TermTuple [(0, X), (1, Y)]], ListObj [MaskTuple [True, True]],
              ArrayObj [2, 3], OperatorObj [([(0, X), (1, Y)], \<i>)]])"
    by code_simp
  note t = get_pool_pure [of ?s 0 2]
  from t d have r: "returned_pool (store_get_pool 0 2 ?s) = Some (get_pool ?H 2)" by blast
  from t d d2 have "returned_pool (store_get_pool 1 2 ?s2) = returned_pool (store_get_pool 0 2 ?s)"
    by blast
  with r have r2: "returned_pool (store_get_pool 1 2 ?s2) = Some (get_pool ?H 2)" by simp
  from d e r d2 r2 show ?thesis unfolding g by (intro conjI)
qed

text \<open>
  Claim C8, as amended. A term with an odd number of \<open>Y\<close> factors does not use up its
  action mask: in the loop body such a term leaves \<open>indices\<close> unchanged, and
  \<open>indices\<close> grows only together with \<open>pool_generators\<close>. Hence, if a term \<open>t2\<close>
  of the Hamiltonian has an even number of \<open>Y\<close> factors and at least one \<open>X\<close> or
  \<open>Y\<close> factor, and every earlier term with the same \<open>X\<close>/\<open>Y\<close> support has an odd
  number of \<open>Y\<close> factors, then the generator of \<open>t2\<close> is in the pool.
\<close>

theorem get_pool_odd_y_keeps_mask:
  assumes "wf_hamiltonian H" "get_pool H n = Inr pool"
    "terms H = before @ t2 # after" "even (y_count t2)" "has_xy t2"
    "\<forall>t1 \<in> set before. xy_support t1 = xy_support t2 \<longrightarrow> odd (y_count t1)"
  shows "QubitOperator (flip_first_xy t2) \<i> \<in> set pool \<and>
         (\<forall>t \<in> set (terms H). \<forall>st st'. get_pool_body n st t = Inr st' \<longrightarrow>
            (odd (y_count t) \<longrightarrow> indices st' = indices st) \<and>
            (indices st' \<noteq> indices st \<longrightarrow>
               length (pool_generators st') = Suc (length (pool_generators st))))"
proof (rule conjI)
  let ?st1 = "foldl (pool_step n) (init_state H) before"
  from get_pool_wf [OF assms(1,2)]
  have p: "pool = pool_generators (foldl (pool_step n) (init_state H) (terms H))"
    and r: "\<forall>t \<in> set (terms H). xy_support t \<subseteq> {..<n}" by simp_all
  have fresh: "action_mask_of n t2 \<notin> set (indices ?st1)"
  proof
    assume "action_mask_of n t2 \<in> set (indices ?st1)"
    from indices_source [OF this] obtain t1 where t1: "t1 \<in> set before"
      "even (y_count t1)" "action_mask_of n t2 = action_mask_of n t1"
      by (auto simp: init_state_def)
    from r t1(1) assms(3) have "xy_support t1 \<subseteq> {..<n}" "xy_support t2 \<subseteq> {..<n}" by simp_all
    from action_mask_of_inject [OF this] t1(3) have "xy_support t1 = xy_support t2" by simp
    with assms(6) t1(1,2) show False by blast
  qed
  with assms(4,5) have "QubitOperator (flip_first_xy t2) \<i> \<in> set (pool_generators (pool_step n ?st1 t2))"
    by (simp add: pool_step_generators)
  with generators_mono [of "pool_step n ?st1 t2" n after]
  show "QubitOperator (flip_first_xy t2) \<i> \<in> set pool"
    unfolding p assms(3) by auto
next
  show "\<forall>t \<in> set (terms H). \<forall>st st'. get_pool_body n st t = Inr st' \<longrightarrow>
            (odd (y_count t) \<longrightarrow> indices st' = indices st) \<and>
            (indices st' \<noteq> indices st \<longrightarrow>
               length (pool_generators st') = Suc (length (pool_generators st)))"
  proof (intro ballI allI impI)
    fix t st st'
    assume t: "t \<in> set (terms H)" and b: "get_pool_body n st t = Inr st'"
    from t assms(1) have "wf_term t" by (simp add: wf_hamiltonian_def list_all_iff)
    from get_pool_body_Inr [OF this b] have s: "st' = pool_step n st t" .
    show "(odd (y_count t) \<longrightarrow> indices st' = indices st) \<and>
            (indices st' \<noteq> indices st \<longrightarrow>
               length (pool_generators st') = Suc (length (pool_generators st)))"
      unfolding s by (simp add: pool_step_indices pool_step_generators)
  qed
qed

theorem get_pool_odd_y_keeps_mask_witness:
  "wf_hamiltonian [([(0, X), (1, Y)], 1), ([(0, Y), (1, Y)], 1)] \<and>
   get_pool [([(0, X), (1, Y)], 1), ([(0, Y), (1, Y)], 1)] 2 = Inr [[([(0, X), (1, Y)], \<i>)]] \<and>
   odd (y_count [(0, X), (1, Y)]) \<and> xy_support [(0, X), (1, Y)] = xy_support [(0, Y), (1, Y)] \<and>
   even (y_count [(0, Y), (1, Y)]) \<and> has_xy [(0, Y), (1, Y)] \<and>
   QubitOperator (flip_first_xy [(0, Y), (1, Y)]) \<i> \<in> set [[([(0, X), (1, Y)], \<i>)]]"
proof -
  have h1: "wf_hamiltonian [([(0, X), (1, Y)], 1), ([(0, Y), (1, Y)], 1)]"
    by code_simp
  have h2: "get_pool [([(0, X), (1, Y)], 1), ([(0, Y), (1, Y)], 1)] 2 = Inr [[([(0, X), (1, Y)], \<i>)]]"
    by code_simp
  have h3: "terms [([(0, X), (1, Y)], 1), ([(0, Y), (1, Y)], 1)] = [[(0, X), (1, Y)]] @ [(0, Y), (1, Y)] # []"
    by (simp add: terms_def)
  have h4: "even (y_count [(0, Y), (1, Y)])" by (simp add: y_count_def)
  have h5: "has_xy [(0, Y), (1, Y)]" by (simp add: has_xy_def xy_factors_def is_xy_def)
  have h6: "odd (y_count [(0, X), (1, Y)])" by (simp add: y_count_def)
  then have h7: "\<forall>t1 \<in> set [[(0, X), (1, Y)]]. xy_support t1 = xy_support [(0, Y), (1, Y)] \<longrightarrow> odd (y_count t1)"
    by simp
  have h8: "xy_support [(0, X), (1, Y)] = xy_support [(0, Y), (1, Y)]"
    by (simp add: xy_support_def xy_factors_def is_xy_def)
  from get_pool_odd_y_keeps_mask [OF h1 h2 h3 h4 h5 h7] h1 h2 h4 h5 h6 h8 show ?thesis by blast
qed

text \<open>
  The claim C8 as first stated lets the later even-\<open>Y\<close> term produce a generator
  whenever an odd-\<open>Y\<close> term with the same support precedes it. In \<open>Y0 Y1 + X0 Y1 + X0 X1\<close>
  the odd-\<open>Y\<close> term \<open>X0 Y1\<close> precedes the even-\<open>Y\<close> term \<open>X0 X1\<close>, yet the mask
  was used by \<open>Y0 Y1\<close> before both and \<open>X0 X1\<close> produces nothing.
\<close>

theorem get_pool_odd_y_keeps_mask_counterexample:
  "get_pool [([(0, Y), (1, Y)], 1), ([(0, X), (1, Y)], 1), ([(0, X), (1, X)], 1)] 2
     = Inr [[([(0, X), (1, Y)], \<i>)]] \<and>
   odd (y_count [(0, X), (1, Y)]) \<and> even (y_count [(0, X), (1, X)]) \<and>
   xy_support [(0, X), (1, Y)] = xy_support [(0, X), (1, X)] \<and>
   QubitOperator (flip_first_xy [(0, X), (1, X)]) \<i> = [([(0, Y), (1, X)], \<i>)] \<and>
   [([(0, Y), (1, X)], \<i>)] \<notin> set [[([(0 :: nat, X), (1, Y)], \<i> :: complex)]]"
proof -
  have 1: "get_pool [([(0, Y), (1, Y)], 1), ([(0, X), (1, Y)], 1), ([(0, X), (1, X)], 1)] 2
     = Inr [[([(0, X), (1, Y)], \<i>)]]"
    by code_simp
  have 2: "odd (y_count [(0, X), (1, Y)])" "even (y_count [(0, X), (1, X)])"
    by (simp_all add: y_count_def)
  have 3: "xy_support [(0, X), (1, Y)] = xy_support [(0, X), (1, X)]"
    by (simp add: xy_support_def xy_factors_def is_xy_def)
  have 4: "QubitOperator (flip_first_xy [(0, X), (1, X)]) \<i> = [([(0, Y), (1, X)], \<i>)]"
    by (simp add: QubitOperator_def flip_first_xy_def xy_factors_def is_xy_def flip_def)
  have 5: "[([(0, Y), (1, X)], \<i>)] \<notin> set [[([(0 :: nat, X), (1, Y)], \<i> :: complex)]]"
    by simp
  from 1 2 3 4 5 show ?thesis by (intro conjI)
qed

section \<open>Claims about the hardware-efficient ansatz\<close>

text \<open>
  Claim C9. For an ansatz set up by \<open>HEA.__init__\<close> and a reference circuit without
  variational gates, the circuit that \<open>build_circuit\<close> returns has exactly
  \<open>n_qubits * 3 * (n_layers + 1)\<close> variational gates, which is \<open>n_var_params\<close>, and
  \<open>_variational_gates\<close> refers to each variational gate of the circuit once. Hence
  \<open>update_var_params\<close>, given \<open>n_var_params\<close> values, raises nothing, leaves the
  \<open>k\<close>-th variational gate with the \<open>k\<close>-th value and leaves every other gate as it
  was.
\<close>

theorem hea_variational_gates:
  assumes "self = HEA_init get_qubit_number n_so n_el n_lay mapp"
    and "non_variational (get_reference_circuit n_so n_el mapp)"
    and "build_circuit array_eq rng get_reference_circuit self vp = (Inr c, self')"
  shows "wf_circuit c \<and>
         length (variational_gates c) = n_qubits self * 3 * (n_layers self + 1) \<and>
         n_var_params self' = length (variational_gates c) \<and>
         (\<forall>ps. length ps = n_var_params self' \<longrightarrow>
            (\<exists>c'. update_var_params self' ps = (Inr (), self'\<lparr>circuit := Some c'\<rparr>) \<and>
                  variational_gates c' = variational_gates c \<and>
                  variational_parameters c' = map Some ps \<and>
                  (\<forall>j < length (gates c). \<not> is_variational (gates c ! j) \<longrightarrow>
                       gates c' ! j = gates c ! j)))"
proof -
  have f: "n_spinorbitals self = n_so" "n_electrons self = n_el" "mapping self = mapp"
    "n_var_params self = n_qubits self * 3 * (n_layers self + 1)"
    by (simp_all add: assms(1) HEA_init_def Let_def)
  from assms(2) have ref: "non_variational (get_reference_circuit (n_spinorbitals self) (n_electrons self) (mapping self))"
    by (simp add: f)
  note b = build_circuit_Inr [OF assms(3) ref]
  from b(3,4) f(4) have n: "length (variational_gates c) = n_var_params self'" by simp
  have u: "\<forall>ps. length ps = n_var_params self' \<longrightarrow>
            (\<exists>c'. update_var_params self' ps = (Inr (), self'\<lparr>circuit := Some c'\<rparr>) \<and>
                  variational_gates c' = variational_gates c \<and>
                  variational_parameters c' = map Some ps \<and>
                  (\<forall>j < length (gates c). \<not> is_variational (gates c ! j) \<longrightarrow>
                       gates c' ! j = gates c ! j))"
  proof (intro allI impI)
    fix ps :: "real list" assume l: "length ps = n_var_params self'"
    then have "n_var_params self' \<le> length ps" by simp
    from update_var_params_wf [OF b(2) b(1) n this] l
    show "\<exists>c'. update_var_params self' ps = (Inr (), self'\<lparr>circuit := Some c'\<rparr>) \<and>
                  variational_gates c' = variational_gates c \<and>
                  variational_parameters c' = map Some ps \<and>
                  (\<forall>j < length (gates c). \<not> is_variational (gates c ! j) \<longrightarrow>
                       gates c' ! j = gates c ! j)"
      by auto
  qed
  from b(1) b(3) n u show ?thesis by simp
qed

theorem hea_variational_gates_witness:
  "\<exists>c self'.
     build_circuit numpy_scalar real (\<lambda>n_so n_el mapp. add_gate Circuit (Gate ''X'' 0 None None False))
       (HEA_init (\<lambda>mapp n_so. n_so) 1 1 1 ''jw'') (PyStr ''ones'') = (Inr c, self') \<and>
     length (variational_gates c) = 6 \<and> n_var_params self' = 6 \<and>
     (\<exists>c'. update_var_params self' [1, 2, 3, 4, 5, 6] = (Inr (), self'\<lparr>circuit := Some c'\<rparr>) \<and>
           variational_parameters c' = map Some [1, 2, 3, 4, 5, 6])"
proof -
  let ?grc = "\<lambda>(n_so::nat) (n_el::nat) (mapp::string). add_gate Circuit (Gate ''X'' 0 None None False)"
  let ?self = "HEA_init (\<lambda>mapp n_so. n_so) 1 1 1 ''jw''"
  obtain r self' where b: "build_circuit numpy_scalar real ?grc ?self (PyStr ''ones'') = (r, self')"
    by (cases "build_circuit numpy_scalar real ?grc ?self (PyStr ''ones'')")
  then obtain c where r: "r = Inr c"
    by (auto simp: build_circuit_def set_var_params_def py_eq_str_def Let_def)
  have h2: "non_variational (?grc 1 1 ''jw'')"
    by (simp add: non_variational_def add_gate_def Circuit_def Gate_def)
  note t = hea_variational_gates [OF refl h2 b [unfolded r]]
  from t have 1: "length (variational_gates c) = 6" by (simp add: HEA_init_def)
  from t 1 have 2: "n_var_params self' = 6" by simp
  have "length [1, 2, 3, 4, 5, 6 :: real] = n_var_params self'" using 2 by simp
  with t obtain c' where "update_var_params self' [1, 2, 3, 4, 5, 6] = (Inr (), self'\<lparr>circuit := Some c'\<rparr>)"
    "variational_parameters c' = map Some [1, 2, 3, 4, 5, 6]"
    by blast
  with b r 1 2 show ?thesis by blast
qed




section \<open>Claims about the ADAPT controller\<close>

text \<open>
  Claim C6. In the run with penalty terms, the solver ranks and optimises with the
  original qubit Hamiltonian plus the penalty operator: the run starts from the state whose
  Hamiltonian is that sum and whose pool is built from that sum, both are the same at the
  start of every cycle, and in every completed cycle the winner is ranked by the gradients
  taken with the sum (its magnitude not below the tolerance 0.01), the optimizer is called
  with the sum on the grown ansatz, and the energy it returns is appended to the history.
  The run ends after at most 12 cycles, in the status the ranking with the sum gives. The
  final report holds the energy of the penalised Hamiltonian and, separately, the
  expectation value of the original Hamiltonian in the final state.
\<close>

theorem penalty_run_hamiltonians:
  "penalty_state B add H pen n 0 =
     \<lparr>working_hamiltonian = add H pen, operator_pool = pool_fn B (add H pen) n,
      ansatz = [], energy_history = []\<rparr> \<and>
   (\<forall>j. working_hamiltonian (penalty_state B add H pen n j) = add H pen \<and>
        operator_pool (penalty_state B add H pen n j) = pool_fn B (add H pen) n) \<and>
   (\<forall>j < length (ansatz (final_state (penalty_run B add H pen n))).
      \<exists>w m. rank_pool (map (gradient B (add H pen) (ansatz (penalty_state B add H pen n j)))
                         (pool_fn B (add H pen) n)) = Some (w, m) \<and>
            \<not> m < 1 / 100 \<and>
            penalty_state B add H pen n (Suc j) =
              (penalty_state B add H pen n j)
                \<lparr>ansatz := reassign
                    (ansatz (penalty_state B add H pen n j) @ [(pool_fn B (add H pen) n ! w, 0)])
                    (fst (optimize B (add H pen)
                       (ansatz (penalty_state B add H pen n j) @ [(pool_fn B (add H pen) n ! w, 0)]))),
                 energy_history := energy_history (penalty_state B add H pen n j) @
                    [snd (optimize B (add H pen)
                       (ansatz (penalty_state B add H pen n j) @ [(pool_fn B (add H pen) n ! w, 0)]))]\<rparr>) \<and>
   final_state (penalty_run B add H pen n) =
     penalty_state B add H pen n (length (ansatz (final_state (penalty_run B add H pen n)))) \<and>
   length (ansatz (final_state (penalty_run B add H pen n))) \<le> 12 \<and>
   final_status (penalty_run B add H pen n) =
     (case rank_pool (map (gradient B (add H pen) (ansatz (final_state (penalty_run B add H pen n))))
                        (pool_fn B (add H pen) n)) of
        None \<Rightarrow> CONVERGED
      | Some (w, m) \<Rightarrow> if m < 1 / 100 then CONVERGED else EXHAUSTED) \<and>
   working_hamiltonian (final_state (penalty_run B add H pen n)) = add H pen \<and>
   operator_pool (final_state (penalty_run B add H pen n)) = pool_fn B (add H pen) n \<and>
   (final_status (penalty_run B add H pen n), final_state (penalty_run B add H pen n)) =
     adapt_loop B (1 / 100) 12
       \<lparr>working_hamiltonian = add H pen, operator_pool = pool_fn B (add H pen) n,
        ansatz = [], energy_history = []\<rparr> \<and>
   penalized_energy (penalty_run B add H pen n) =
     expectation B (ansatz (final_state (penalty_run B add H pen n))) (add H pen) \<and>
   true_energy (penalty_run B add H pen n) =
     expectation B (ansatz (final_state (penalty_run B add H pen n))) H"
proof -
  let ?opts = "penalty_opt_dict add H pen n"
  let ?W = "add H pen"
  let ?P = "pool_fn B (add H pen) n"
  let ?S = "penalty_state B add H pen n"
  obtain status st where a: "adapt_simulate B ?opts = (status, st)"
    by (cases "adapt_simulate B ?opts")
  have o: "tol ?opts = 1 / 100" "max_cycles ?opts = 12"
    "opt_qubit_hamiltonian ?opts = ?W" "pool_args ?opts = (?W, n)"
    by (simp_all add: penalty_opt_dict_def Let_def)
  have i: "adapt_init B ?opts = \<lparr>working_hamiltonian = ?W,
      operator_pool = ?P, ansatz = [], energy_history = []\<rparr>"
    by (simp add: adapt_init_def o)
  have r: "penalty_run B add H pen n =
      \<lparr>final_status = status, final_state = st,
       penalized_energy = expectation B (ansatz st) (working_hamiltonian st),
       true_energy = expectation B (ansatz st) H\<rparr>"
    by (simp add: penalty_run_def Let_def a)
  have s0: "?S 0 = \<lparr>working_hamiltonian = ?W, operator_pool = ?P, ansatz = [], energy_history = []\<rparr>"
    by (simp add: penalty_state_def i)
  have f: "\<And>j. working_hamiltonian (?S j) = ?W \<and> operator_pool (?S j) = ?P"
    unfolding penalty_state_def
    using funpow_cycle_state_fixed [where B = B and tolerance = "1 / 100" and limit = 12
        and st = "adapt_init B ?opts"] by (simp add: i)
  from a have l: "adapt_loop B (1 / 100) 12 (adapt_init B ?opts) = (status, st)"
    by (simp add: adapt_simulate_def o)
  from adapt_loop_run [OF l] obtain k where k:
    "st = ?S k"
    "\<forall>j < k. fst (adapt_cycle B (1 / 100) 12 (?S j)) = CONTINUE"
    "adapt_cycle B (1 / 100) 12 st = (status, st)" "status \<noteq> CONTINUE"
    "length (ansatz st) = length (ansatz (adapt_init B ?opts)) + k"
    "k = 0 \<or> length (ansatz st) \<le> 12"
    unfolding penalty_state_def by blast
  from k(5) have lk: "length (ansatz st) = k" by (simp add: i)
  with k(6) have b: "length (ansatz st) \<le> 12" by auto
  from k(1) f [of k] have w: "working_hamiltonian st = ?W" "operator_pool st = ?P"
    by simp_all
  have c: "\<forall>j < length (ansatz st).
      \<exists>w m. rank_pool (map (gradient B ?W (ansatz (?S j))) ?P) = Some (w, m) \<and>
            \<not> m < 1 / 100 \<and>
            ?S (Suc j) =
              (?S j)\<lparr>ansatz := reassign (ansatz (?S j) @ [(?P ! w, 0)])
                    (fst (optimize B ?W (ansatz (?S j) @ [(?P ! w, 0)]))),
                 energy_history := energy_history (?S j) @
                    [snd (optimize B ?W (ansatz (?S j) @ [(?P ! w, 0)]))]\<rparr>"
  proof (intro allI impI)
    fix j assume "j < length (ansatz st)"
    with lk k(2) have "fst (adapt_cycle B (1 / 100) 12 (?S j)) = CONTINUE" by simp
    from adapt_cycle_continue [OF this] f [of j]
    have "\<exists>w m. rank_pool (map (gradient B ?W (ansatz (?S j))) ?P) = Some (w, m) \<and>
            \<not> m < 1 / 100 \<and>
            cycle_state B (1 / 100) 12 (?S j) =
              (?S j)\<lparr>ansatz := reassign (ansatz (?S j) @ [(?P ! w, 0)])
                    (fst (optimize B ?W (ansatz (?S j) @ [(?P ! w, 0)]))),
                 energy_history := energy_history (?S j) @
                    [snd (optimize B ?W (ansatz (?S j) @ [(?P ! w, 0)]))]\<rparr>"
      by auto
    moreover have "?S (Suc j) = cycle_state B (1 / 100) 12 (?S j)"
      by (simp add: penalty_state_def)
    ultimately show "\<exists>w m. rank_pool (map (gradient B ?W (ansatz (?S j))) ?P) = Some (w, m) \<and>
            \<not> m < 1 / 100 \<and>
            ?S (Suc j) =
              (?S j)\<lparr>ansatz := reassign (ansatz (?S j) @ [(?P ! w, 0)])
                    (fst (optimize B ?W (ansatz (?S j) @ [(?P ! w, 0)]))),
                 energy_history := energy_history (?S j) @
                    [snd (optimize B ?W (ansatz (?S j) @ [(?P ! w, 0)]))]\<rparr>"
      by simp
  qed
  from adapt_cycle_stop [OF k(3,4)] w
  have fs: "status = (case rank_pool (map (gradient B ?W (ansatz st)) ?P) of
        None \<Rightarrow> CONVERGED
      | Some (w, m) \<Rightarrow> if m < 1 / 100 then CONVERGED else EXHAUSTED)"
    by simp
  from k(1) lk have fk: "st = ?S (length (ansatz st))" by simp
  from l have l': "(status, st) = adapt_loop B (1 / 100) 12
       \<lparr>working_hamiltonian = ?W, operator_pool = ?P, ansatz = [], energy_history = []\<rparr>"
    by (simp add: i)
  have e: "final_status (penalty_run B add H pen n) = status"
    "final_state (penalty_run B add H pen n) = st"
    "penalized_energy (penalty_run B add H pen n) = expectation B (ansatz st) ?W"
    "true_energy (penalty_run B add H pen n) = expectation B (ansatz st) H"
    by (simp_all add: r w)
  show ?thesis
    unfolding e
    apply (intro conjI)
    apply (rule s0)
    apply (rule allI, rule f)
    apply (rule c)
    apply (rule fk)
    apply (rule b)
    apply (rule fs)
    apply (rule w(1))
    apply (rule w(2))
    apply (rule l')
    apply (rule refl)
    apply (rule refl)
    done
qed

theorem penalty_run_hamiltonians_witness:
  "penalty_run
     \<lparr>pool_fn = (\<lambda>(h :: real) n. [0 :: nat, 1]),
      gradient = (\<lambda>h anz g. if anz = [] then h else 0),
      optimize = (\<lambda>h anz. (map (\<lambda>p. h) anz, h)), expectation = (\<lambda>anz h. h)\<rparr>
     (+) (- 1) (1 / 2) 2 =
     \<lparr>final_status = CONVERGED,
      final_state = \<lparr>working_hamiltonian = - 1 / 2, operator_pool = [0, 1],
                      ansatz = [(0, - 1 / 2)], energy_history = [- 1 / 2]\<rparr>,
      penalized_energy = - 1 / 2, true_energy = - 1\<rparr> \<and>
   rank_pool (map (gradient
       \<lparr>pool_fn = (\<lambda>(h :: real) n. [0 :: nat, 1]),
        gradient = (\<lambda>h anz g. if anz = [] then h else 0),
        optimize = (\<lambda>h anz. (map (\<lambda>p. h) anz, h)), expectation = (\<lambda>anz h. h)\<rparr>
       (- 1 + 1 / 2) []) [0, 1]) = Some (0, 1 / 2) \<and>
   penalty_state
     \<lparr>pool_fn = (\<lambda>(h :: real) n. [0 :: nat, 1]),
      gradient = (\<lambda>h anz g. if anz = [] then h else 0),
      optimize = (\<lambda>h anz. (map (\<lambda>p. h) anz, h)), expectation = (\<lambda>anz h. h)\<rparr>
     (+) (- 1) (1 / 2) 2 (Suc 0) =
     \<lparr>working_hamiltonian = - 1 / 2, operator_pool = [0, 1],
      ansatz = [(0, - 1 / 2)], energy_history = [- 1 / 2]\<rparr>"
proof -
  let ?B = "\<lparr>pool_fn = (\<lambda>(h :: real) n. [0 :: nat, 1]),
      gradient = (\<lambda>h anz g. if anz = [] then h else 0),
      optimize = (\<lambda>h anz. (map (\<lambda>p. h) anz, h)), expectation = (\<lambda>anz h. h)\<rparr>"
  let ?s0 = "\<lparr>working_hamiltonian = - 1 / 2 :: real, operator_pool = [0 :: nat, 1], ansatz = [],
       energy_history = []\<rparr>"
  let ?s1 = "\<lparr>working_hamiltonian = - 1 / 2 :: real, operator_pool = [0 :: nat, 1],
       ansatz = [(0, - 1 / 2)], energy_history = [- 1 / 2]\<rparr>"
  have c0: "adapt_cycle ?B (1 / 100) 12 ?s0 = (CONTINUE, ?s1)"
    by (simp add: adapt_cycle_def rank_pool_def reassign_def)
  have c1: "adapt_cycle ?B (1 / 100) 12 ?s1 = (CONVERGED, ?s1)"
    by (simp add: adapt_cycle_def rank_pool_def)
  have "adapt_loop ?B (1 / 100) 12 ?s0 = adapt_loop ?B (1 / 100) 12 ?s1"
    by (subst adapt_loop.simps) (simp only: c0 prod.case termination_state.case)
  also have "\<dots> = (CONVERGED, ?s1)"
    by (subst adapt_loop.simps) (simp only: c1 prod.case termination_state.case)
  finally have h: "adapt_simulate ?B (penalty_opt_dict (+) (- 1) (1 / 2) 2) = (CONVERGED, ?s1)"
    by (simp add: adapt_simulate_def adapt_init_def penalty_opt_dict_def Let_def)
  have r: "penalty_run ?B (+) (- 1) (1 / 2) 2 =
     \<lparr>final_status = CONVERGED, final_state = ?s1,
      penalized_energy = - 1 / 2, true_energy = - 1\<rparr>"
    unfolding penalty_run_def Let_def h by simp
  have g: "rank_pool (map (gradient ?B (- 1 + 1 / 2) []) [0, 1]) = Some (0, 1 / 2)"
    by (simp add: rank_pool_def)
  note t = penalty_run_hamiltonians [of ?B "(+)" "- 1" "1 / 2" 2]
  from t have s0: "penalty_state ?B (+) (- 1) (1 / 2) 2 0 = ?s0" by simp
  from t have "\<forall>j < length (ansatz (final_state (penalty_run ?B (+) (- 1) (1 / 2) 2))).
      \<exists>w m. rank_pool (map (gradient ?B (- 1 + 1 / 2) (ansatz (penalty_state ?B (+) (- 1) (1 / 2) 2 j)))
                         (pool_fn ?B (- 1 + 1 / 2) 2)) = Some (w, m) \<and>
            \<not> m < 1 / 100 \<and>
            penalty_state ?B (+) (- 1) (1 / 2) 2 (Suc j) =
              (penalty_state ?B (+) (- 1) (1 / 2) 2 j)
                \<lparr>ansatz := reassign
                    (ansatz (penalty_state ?B (+) (- 1) (1 / 2) 2 j) @ [(pool_fn ?B (- 1 + 1 / 2) 2 ! w, 0)])
                    (fst (optimize ?B (- 1 + 1 / 2)
                       (ansatz (penalty_state ?B (+) (- 1) (1 / 2) 2 j) @ [(pool_fn ?B (- 1 + 1 / 2) 2 ! w, 0)]))),
                 energy_history := energy_history (penalty_state ?B (+) (- 1) (1 / 2) 2 j) @
                    [snd (optimize ?B (- 1 + 1 / 2)
                       (ansatz (penalty_state ?B (+) (- 1) (1 / 2) 2 j) @ [(pool_fn ?B (- 1 + 1 / 2) 2 ! w, 0)]))]\<rparr>"
    by (elim conjE)
  moreover have "0 < length (ansatz (final_state (penalty_run ?B (+) (- 1) (1 / 2) 2)))"
    unfolding r by simp
  ultimately obtain w m where
    wm: "rank_pool (map (gradient ?B (- 1 + 1 / 2) (ansatz (penalty_state ?B (+) (- 1) (1 / 2) 2 0)))
                         (pool_fn ?B (- 1 + 1 / 2) 2)) = Some (w, m)"
    and s1: "penalty_state ?B (+) (- 1) (1 / 2) 2 (Suc 0) =
              (penalty_state ?B (+) (- 1) (1 / 2) 2 0)
                \<lparr>ansatz := reassign
                    (ansatz (penalty_state ?B (+) (- 1) (1 / 2) 2 0) @ [(pool_fn ?B (- 1 + 1 / 2) 2 ! w, 0)])
                    (fst (optimize ?B (- 1 + 1 / 2)
                       (ansatz (penalty_state ?B (+) (- 1) (1 / 2) 2 0) @ [(pool_fn ?B (- 1 + 1 / 2) 2 ! w, 0)]))),
                 energy_history := energy_history (penalty_state ?B (+) (- 1) (1 / 2) 2 0) @
                    [snd (optimize ?B (- 1 + 1 / 2)
                       (ansatz (penalty_state ?B (+) (- 1) (1 / 2) 2 0) @ [(pool_fn ?B (- 1 + 1 / 2) 2 ! w, 0)]))]\<rparr>"
    by blast
  from wm have "w = 0" unfolding s0 by (simp add: rank_pool_def)
  with s1 have "penalty_state ?B (+) (- 1) (1 / 2) 2 (Suc 0) = ?s1"
    unfolding s0 by (simp add: reassign_def)
  with r g show ?thesis by (intro conjI)
qed



end
